theory Spec2Isabelle
  imports Main "HOL-Library.Word"
begin

section \<open>JavaScript strings and values\<close>

text \<open>
  A JavaScript string is a sequence of UTF-16 code units; \<open>str[i]\<close>, \<open>str.length\<close> and
  \<open>charCodeAt\<close> all count code units. A string is therefore a list of 16-bit words.
  \<open>js\<close> writes an ASCII literal as such a string.
\<close>

type_synonym jschar = "16 word"
type_synonym jsstring = "jschar list"

definition js :: "string \<Rightarrow> jsstring" where
  "js s = map (\<lambda>c. of_nat (of_char c)) s"

definition COLON :: jschar where "COLON = 0x3A"
definition NEWLINE :: jschar where "NEWLINE = 0x0A"
definition BACKSLASH :: jschar where "BACKSLASH = 0x5C"
definition LETTER_N :: jschar where "LETTER_N = 0x6E"

text \<open>\<open>str[i]\<close>: \<open>None\<close> is JavaScript's \<open>undefined\<close>, read past the end.\<close>

definition charAt :: "jsstring \<Rightarrow> nat \<Rightarrow> jschar option" where
  "charAt str i = (if i < length str then Some (str ! i) else None)"

section \<open>StringUtils\<close>

text \<open>
  \<open>splitString\<close>: one pass over \<open>str\<close>; \<open>str[i] === delimiter\<close> compares the one-character
  string \<open>str[i]\<close> with the whole delimiter string.
\<close>

fun splitLoop :: "jsstring \<Rightarrow> jsstring \<Rightarrow> jsstring list \<Rightarrow> jsstring \<Rightarrow> jsstring list" where
  "splitLoop [] delimiter result current = result @ [current]"
| "splitLoop (c # cs) delimiter result current =
     (if [c] = delimiter then splitLoop cs delimiter (result @ [current]) []
      else splitLoop cs delimiter result (current @ [c]))"

definition splitString :: "jsstring \<Rightarrow> jsstring \<Rightarrow> jsstring list" where
  "splitString str delimiter = splitLoop str delimiter [] []"

text \<open>\<open>indexOfString\<close>: the inner loop compares \<open>search\<close> at offset \<open>i\<close>, leaving at the first mismatch.\<close>

function matchLoop :: "jsstring \<Rightarrow> jsstring \<Rightarrow> nat \<Rightarrow> nat \<Rightarrow> bool" where
  "matchLoop str search i j =
     (if j < length search
      then (if charAt str (i + j) \<noteq> charAt search j then False
            else matchLoop str search i (j + 1))
      else True)"
  by pat_completeness auto
termination
  by (relation "measure (\<lambda>(str, search, i, j). length search - j)") auto

function indexLoop :: "jsstring \<Rightarrow> jsstring \<Rightarrow> nat \<Rightarrow> int" where
  "indexLoop str search i =
     (if int i \<le> int (length str) - int (length search)
      then (if matchLoop str search i 0 then int i else indexLoop str search (i + 1))
      else - 1)"
  by pat_completeness auto
termination
  by (relation "measure (\<lambda>(str, search, i). Suc (length str) - i)") auto

declare matchLoop.simps [simp del]
declare indexLoop.simps [simp del]

definition indexOfString :: "jsstring \<Rightarrow> jsstring \<Rightarrow> int" where
  "indexOfString str search = indexLoop str search 0"

text \<open>\<open>escapeString\<close>: each character is replaced on its own, left to right.\<close>

fun escapeString :: "jsstring \<Rightarrow> jsstring" where
  "escapeString [] = []"
| "escapeString (c # cs) =
     (if c = COLON then [COLON, COLON]
      else if c = NEWLINE then [BACKSLASH, LETTER_N]
      else if c = BACKSLASH then [BACKSLASH, BACKSLASH]
      else [c]) @ escapeString cs"

text \<open>
  \<open>unescapeString\<close>: the index advances by two after a decoded pair. The first equation
  is the empty string, the second the last character (\<open>i + 1 < str.length\<close> is false),
  the third a character with a successor.
\<close>

fun unescapeString :: "jsstring \<Rightarrow> jsstring" where
  "unescapeString [] = []"
| "unescapeString [c] = [c]"
| "unescapeString (c # d # ds) =
     (if c = BACKSLASH then
        (if d = LETTER_N then NEWLINE # unescapeString ds
         else if d = BACKSLASH then BACKSLASH # unescapeString ds
         else c # unescapeString (d # ds))
      else if c = COLON \<and> d = COLON then COLON # unescapeString ds
      else c # unescapeString (d # ds))"

section \<open>HashFunction\<close>

record HashFunction =
  hf_bucketCount :: nat

text \<open>
  JavaScript numbers are doubles; \<open><<\<close> and \<open>&\<close> convert their operands with ToInt32,
  that is modulo \<open>2^32\<close> into the signed range. Between the two conversions of one
  iteration the value stays below \<open>2^33\<close> in size, where double arithmetic is exact.
\<close>

definition toInt32 :: "int \<Rightarrow> int" where
  "toInt32 x = (x + 2 ^ 31) mod 2 ^ 32 - 2 ^ 31"

fun hashLoop :: "int \<Rightarrow> jsstring \<Rightarrow> int" where
  "hashLoop h [] = h"
| "hashLoop h (c # cs) = hashLoop (toInt32 ((toInt32 (h * 2 ^ 5) - h) + int (unat c))) cs"

text \<open>
  \<open>Math.abs(hash) % bucketCount\<close>. The remainder by zero is NaN, here \<open>None\<close>.
\<close>

definition hash :: "HashFunction \<Rightarrow> jsstring \<Rightarrow> nat option" where
  "hash hf key =
     (if hf_bucketCount hf = 0 then None
      else Some (nat (\<bar>hashLoop 0 key\<bar> mod int (hf_bucketCount hf))))"

section \<open>Values, entries and the file\<close>

text \<open>
  The table is typed \<open>{ key: string; value: string }\<close>, but \<open>resize\<close> reads the values
  back out of a plain object (see \<open>getAll\<close> and \<open>objGet\<close> below), and a read from a plain
  object can return something other than a string. The values a bucket can hold at run
  time are therefore: a string, the object \<open>Object.prototype\<close>, or \<open>undefined\<close>.
\<close>

datatype jsvalue = Str jsstring | ObjectPrototype | Undefined

record entry =
  e_key :: jsstring
  e_value :: jsvalue

datatype error = TypeError

text \<open>
  \<open>escapeString\<close> applied to the value of an entry. On \<open>Object.prototype\<close> the property
  \<open>length\<close> is \<open>undefined\<close>, the loop condition \<open>0 < undefined\<close> is false and the result
  is the empty string. On \<open>undefined\<close> the read of \<open>length\<close> throws.
\<close>

fun escapeValue :: "jsvalue \<Rightarrow> error + jsstring" where
  "escapeValue (Str str) = Inr (escapeString str)"
| "escapeValue ObjectPrototype = Inr []"
| "escapeValue Undefined = Inl TypeError"

text \<open>
  The file behind \<open>filePath\<close>: its content as \<open>readFileSync(_, 'utf-8')\<close> returns it
  (\<open>None\<close> when the file does not exist), and the number of \<open>writeFileSync\<close> calls made
  so far. Directory creation and I/O failures of the operating system are not modelled.

  Writing a string as UTF-8 and reading it back keeps every surrogate pair and every
  other code unit, and turns each lone surrogate into U+FFFD.
\<close>

record disk =
  fileContent :: "jsstring option"
  writes :: nat

definition isHighSurrogate :: "jschar \<Rightarrow> bool" where
  "isHighSurrogate c = (0xD800 \<le> c \<and> c \<le> 0xDBFF)"

definition isLowSurrogate :: "jschar \<Rightarrow> bool" where
  "isLowSurrogate c = (0xDC00 \<le> c \<and> c \<le> 0xDFFF)"

fun utf8 :: "jsstring \<Rightarrow> jsstring" where
  "utf8 [] = []"
| "utf8 [c] = (if isHighSurrogate c \<or> isLowSurrogate c then [0xFFFD] else [c])"
| "utf8 (c # d # ds) =
     (if isHighSurrogate c \<and> isLowSurrogate d then c # d # utf8 ds
      else if isHighSurrogate c \<or> isLowSurrogate c then 0xFFFD # utf8 (d # ds)
      else c # utf8 (d # ds))"

definition writeFileSync :: "disk \<Rightarrow> jsstring \<Rightarrow> disk" where
  "writeFileSync d content = \<lparr>fileContent = Some (utf8 content), writes = writes d + 1\<rparr>"

text \<open>\<open>String.prototype.trim\<close> removes WhiteSpace and LineTerminator code units at both ends.\<close>

definition isWhiteSpace :: "jschar \<Rightarrow> bool" where
  "isWhiteSpace c =
     (c = 0x09 \<or> c = 0x0A \<or> c = 0x0B \<or> c = 0x0C \<or> c = 0x0D \<or> c = 0x20 \<or> c = 0xA0
      \<or> c = 0x1680 \<or> (0x2000 \<le> c \<and> c \<le> 0x200A) \<or> c = 0x2028 \<or> c = 0x2029
      \<or> c = 0x202F \<or> c = 0x205F \<or> c = 0x3000 \<or> c = 0xFEFF)"

definition trim :: "jsstring \<Rightarrow> jsstring" where
  "trim str = rev (dropWhile isWhiteSpace (rev (dropWhile isWhiteSpace str)))"

text \<open>\<open>lines.join('\n')\<close>\<close>

fun join :: "jsstring list \<Rightarrow> jsstring \<Rightarrow> jsstring" where
  "join [] separator = []"
| "join [l] separator = l"
| "join (l # m # ls) separator = l @ separator @ join (m # ls) separator"

section \<open>DiskPersistence\<close>

text \<open>
  \<open>save\<close>: the two nested loops visit the entries bucket by bucket. An exception raised
  while the lines are built is caught by the \<open>catch\<close> around the whole body, before
  anything is written.
\<close>

fun saveLines :: "entry list \<Rightarrow> error + jsstring list" where
  "saveLines [] = Inr []"
| "saveLines (e # es) =
     (case escapeValue (e_value e) of
        Inl err \<Rightarrow> Inl err
      | Inr safeValue \<Rightarrow>
          (case saveLines es of
             Inl err \<Rightarrow> Inl err
           | Inr lines \<Rightarrow> Inr ((escapeString (e_key e) @ [COLON] @ safeValue) # lines)))"

definition save :: "disk \<Rightarrow> entry list list \<Rightarrow> disk" where
  "save d buckets =
     (case saveLines (concat buckets) of
        Inl err \<Rightarrow> d
      | Inr lines \<Rightarrow> writeFileSync d (join lines [NEWLINE]))"

text \<open>\<open>load\<close>: the body of the loop over the lines, then the loop.\<close>

definition loadLine :: "jsstring \<Rightarrow> entry option" where
  "loadLine l =
     (let line = trim l in
      if line \<noteq> [] then
        (let colonIndex = indexOfString line [COLON] in
         if colonIndex > 0 then
           Some \<lparr>e_key = unescapeString (take (nat colonIndex) line),
                 e_value = Str (unescapeString (drop (nat colonIndex + 1) line))\<rparr>
         else None)
      else None)"

definition load :: "disk \<Rightarrow> entry list" where
  "load d =
     (case fileContent d of
        None \<Rightarrow> []
      | Some content \<Rightarrow> List.map_filter loadLine (splitString content [NEWLINE]))"

section \<open>BucketManager\<close>

record BucketManager =
  buckets :: "entry list list"
  bm_bucketCount :: nat

definition newBucketManager :: "nat \<Rightarrow> BucketManager" where
  "newBucketManager n = \<lparr>buckets = replicate n [], bm_bucketCount = n\<rparr>"

text \<open>
  \<open>this.buckets[bucketIndex]\<close>: with an index that is NaN or past the end the read gives
  \<open>undefined\<close>, and the following \<open>bucket.length\<close> throws a TypeError.
\<close>

fun getBucket :: "BucketManager \<Rightarrow> nat option \<Rightarrow> error + entry list" where
  "getBucket bm None = Inl TypeError"
| "getBucket bm (Some i) = (if i < length (buckets bm) then Inr (buckets bm ! i) else Inl TypeError)"

fun setLoop :: "entry list \<Rightarrow> jsstring \<Rightarrow> jsvalue \<Rightarrow> entry list" where
  "setLoop [] key value = [\<lparr>e_key = key, e_value = value\<rparr>]"
| "setLoop (e # es) key value =
     (if e_key e = key then e\<lparr>e_value := value\<rparr> # es else e # setLoop es key value)"

fun setInBucket :: "BucketManager \<Rightarrow> nat option \<Rightarrow> jsstring \<Rightarrow> jsvalue \<Rightarrow> error + BucketManager" where
  "setInBucket bm None key value = Inl TypeError"
| "setInBucket bm (Some i) key value =
     (if i < length (buckets bm)
      then Inr (bm\<lparr>buckets := (buckets bm)[i := setLoop (buckets bm ! i) key value]\<rparr>)
      else Inl TypeError)"

fun getLoop :: "entry list \<Rightarrow> jsstring \<Rightarrow> jsvalue option" where
  "getLoop [] key = None"
| "getLoop (e # es) key = (if e_key e = key then Some (e_value e) else getLoop es key)"

definition getFromBucket :: "BucketManager \<Rightarrow> nat option \<Rightarrow> jsstring \<Rightarrow> error + jsvalue option" where
  "getFromBucket bm bucketIndex key =
     (case getBucket bm bucketIndex of Inl err \<Rightarrow> Inl err | Inr bucket \<Rightarrow> Inr (getLoop bucket key))"

text \<open>
  \<open>deleteFromBucket\<close>: at the first entry with the key, the entries behind it move one
  place forward and the length drops by one. \<open>None\<close>: the key was not found and nothing
  was touched.
\<close>

fun deleteLoop :: "entry list \<Rightarrow> jsstring \<Rightarrow> entry list option" where
  "deleteLoop [] key = None"
| "deleteLoop (e # es) key =
     (if e_key e = key then Some es
      else (case deleteLoop es key of None \<Rightarrow> None | Some es' \<Rightarrow> Some (e # es')))"

fun deleteFromBucket :: "BucketManager \<Rightarrow> nat option \<Rightarrow> jsstring \<Rightarrow> error + bool \<times> BucketManager" where
  "deleteFromBucket bm None key = Inl TypeError"
| "deleteFromBucket bm (Some i) key =
     (if i < length (buckets bm)
      then (case deleteLoop (buckets bm ! i) key of
              None \<Rightarrow> Inr (False, bm)
            | Some bucket' \<Rightarrow> Inr (True, bm\<lparr>buckets := (buckets bm)[i := bucket']\<rparr>))
      else Inl TypeError)"

fun hasLoop :: "entry list \<Rightarrow> jsstring \<Rightarrow> bool" where
  "hasLoop [] key = False"
| "hasLoop (e # es) key = (if e_key e = key then True else hasLoop es key)"

definition hasInBucket :: "BucketManager \<Rightarrow> nat option \<Rightarrow> jsstring \<Rightarrow> error + bool" where
  "hasInBucket bm bucketIndex key =
     (case getBucket bm bucketIndex of Inl err \<Rightarrow> Inl err | Inr bucket \<Rightarrow> Inr (hasLoop bucket key))"

definition getAllKeys :: "BucketManager \<Rightarrow> jsstring list" where
  "getAllKeys bm = map e_key (concat (buckets bm))"

text \<open>
  \<open>getAll\<close> collects the entries in a plain object \<open>{}\<close>, modelled by its own properties.
  The name \<open>__proto__\<close> is not an ordinary property name of such an object: it is an
  accessor inherited from \<open>Object.prototype\<close>. Assigning a string (or \<open>undefined\<close>, or
  \<open>Object.prototype\<close> itself) to it creates no property and changes nothing, and reading
  it returns \<open>Object.prototype\<close>. Reading any other name that is not an own property
  gives \<open>undefined\<close> (or a method inherited from \<open>Object.prototype\<close>, for one of its
  names; \<open>resize\<close> only reads names that \<open>getAll\<close> has written).
\<close>

type_synonym jsobject = "jsstring \<rightharpoonup> jsvalue"

definition objSet :: "jsobject \<Rightarrow> jsstring \<Rightarrow> jsvalue \<Rightarrow> jsobject" where
  "objSet obj name v = (if name = js ''__proto__'' then obj else obj(name \<mapsto> v))"

definition objGet :: "jsobject \<Rightarrow> jsstring \<Rightarrow> jsvalue" where
  "objGet obj name =
     (if name = js ''__proto__'' then ObjectPrototype
      else (case obj name of None \<Rightarrow> Undefined | Some v \<Rightarrow> v))"

fun getAllLoop :: "entry list \<Rightarrow> jsobject \<Rightarrow> jsobject" where
  "getAllLoop [] result = result"
| "getAllLoop (e # es) result = getAllLoop es (objSet result (e_key e) (e_value e))"

definition getAll :: "BucketManager \<Rightarrow> jsobject" where
  "getAll bm = getAllLoop (concat (buckets bm)) Map.empty"

definition getAllBuckets :: "BucketManager \<Rightarrow> entry list list" where
  "getAllBuckets bm = buckets bm"

section \<open>HashMapStore\<close>

text \<open>
  The store with its three components; \<open>disk\<close> is the file of its DiskPersistence. An
  operation that throws returns \<open>Inl\<close>; the state it leaves behind is not modelled.
\<close>

record HashMapStore =
  hashFunction :: HashFunction
  bucketManager :: BucketManager
  disk :: disk
  bucketCount :: nat

text \<open>
  \<open>totalItems / bucketCount > 0.75\<close> on doubles. The quotient of two integers below
  \<open>2^52\<close> exceeds 0.75 after rounding exactly when \<open>4 * totalItems > 3 * bucketCount\<close>;
  with \<open>bucketCount = 0\<close> the quotient is Infinity for a positive count and NaN for zero,
  which agrees with the same inequality.
\<close>

definition shouldResize :: "HashMapStore \<Rightarrow> bool" where
  "shouldResize s = (4 * length (getAllKeys (bucketManager s)) > 3 * bucketCount s)"

definition setWithoutSave :: "HashMapStore \<Rightarrow> jsstring \<Rightarrow> jsvalue \<Rightarrow> error + HashMapStore" where
  "setWithoutSave s key value =
     (case setInBucket (bucketManager s) (hash (hashFunction s) key) key value of
        Inl err \<Rightarrow> Inl err
      | Inr bm \<Rightarrow> Inr (s\<lparr>bucketManager := bm\<rparr>))"

fun reinsert :: "HashMapStore \<Rightarrow> jsobject \<Rightarrow> jsstring list \<Rightarrow> error + HashMapStore" where
  "reinsert s allData [] = Inr s"
| "reinsert s allData (key # allKeys) =
     (case setWithoutSave s key (objGet allData key) of
        Inl err \<Rightarrow> Inl err
      | Inr s' \<Rightarrow> reinsert s' allData allKeys)"

definition resize :: "HashMapStore \<Rightarrow> error + HashMapStore" where
  "resize s =
     (let allData = getAll (bucketManager s);
          allKeys = getAllKeys (bucketManager s);
          n = bucketCount s * 2
      in reinsert (s\<lparr>bucketCount := n,
                     hashFunction := \<lparr>hf_bucketCount = n\<rparr>,
                     bucketManager := newBucketManager n\<rparr>) allData allKeys)"

definition saveToDisk :: "HashMapStore \<Rightarrow> HashMapStore" where
  "saveToDisk s = s\<lparr>disk := save (disk s) (getAllBuckets (bucketManager s))\<rparr>"

definition has :: "HashMapStore \<Rightarrow> jsstring \<Rightarrow> error + bool" where
  "has s key = hasInBucket (bucketManager s) (hash (hashFunction s) key) key"

definition set' :: "HashMapStore \<Rightarrow> jsstring \<Rightarrow> jsstring \<Rightarrow> error + HashMapStore" where
  "set' s key value =
     (case has s key of
        Inl err \<Rightarrow> Inl err
      | Inr exists \<Rightarrow>
          (case setWithoutSave s key (Str value) of
             Inl err \<Rightarrow> Inl err
           | Inr s1 \<Rightarrow>
               (case (if \<not> exists \<and> shouldResize s1 then resize s1 else Inr s1) of
                  Inl err \<Rightarrow> Inl err
                | Inr s2 \<Rightarrow> Inr (saveToDisk s2))))"

definition get :: "HashMapStore \<Rightarrow> jsstring \<Rightarrow> error + jsvalue option" where
  "get s key = getFromBucket (bucketManager s) (hash (hashFunction s) key) key"

definition update :: "HashMapStore \<Rightarrow> jsstring \<Rightarrow> jsstring \<Rightarrow> error + bool \<times> HashMapStore" where
  "update s key value =
     (let bucketIndex = hash (hashFunction s) key in
      case hasInBucket (bucketManager s) bucketIndex key of
        Inl err \<Rightarrow> Inl err
      | Inr True \<Rightarrow>
          (case setInBucket (bucketManager s) bucketIndex key (Str value) of
             Inl err \<Rightarrow> Inl err
           | Inr bm \<Rightarrow> Inr (True, saveToDisk (s\<lparr>bucketManager := bm\<rparr>)))
      | Inr False \<Rightarrow> Inr (False, s))"

definition delete :: "HashMapStore \<Rightarrow> jsstring \<Rightarrow> error + bool \<times> HashMapStore" where
  "delete s key =
     (case deleteFromBucket (bucketManager s) (hash (hashFunction s) key) key of
        Inl err \<Rightarrow> Inl err
      | Inr (True, bm) \<Rightarrow> Inr (True, saveToDisk (s\<lparr>bucketManager := bm\<rparr>))
      | Inr (False, bm) \<Rightarrow> Inr (False, s))"

definition getBucketForKey :: "HashMapStore \<Rightarrow> jsstring \<Rightarrow> nat option" where
  "getBucketForKey s key = hash (hashFunction s) key"

text \<open>The constructor: 16 buckets, then the entries of the file, put in without saving.\<close>

fun loadLoop :: "HashMapStore \<Rightarrow> entry list \<Rightarrow> error + HashMapStore" where
  "loadLoop s [] = Inr s"
| "loadLoop s (e # es) =
     (case setWithoutSave s (e_key e) (e_value e) of
        Inl err \<Rightarrow> Inl err
      | Inr s' \<Rightarrow> loadLoop s' es)"

definition loadFromDisk :: "HashMapStore \<Rightarrow> error + HashMapStore" where
  "loadFromDisk s = loadLoop s (load (disk s))"

definition newHashMapStore :: "disk \<Rightarrow> error + HashMapStore" where
  "newHashMapStore d =
     loadFromDisk \<lparr>hashFunction = \<lparr>hf_bucketCount = 16\<rparr>,
                   bucketManager = newBucketManager 16,
                   disk = d,
                   bucketCount = 16\<rparr>"

section \<open>The table invariant\<close>

text \<open>
  \<open>placedFrom hf i bs\<close>: the buckets \<open>bs\<close>, the first of which has index \<open>i\<close>, hold every
  entry in the bucket its key hashes to, and no bucket holds a key twice. Since a key has
  one hash, a key then occurs in one bucket only, once.
\<close>

fun placedFrom :: "HashFunction \<Rightarrow> nat \<Rightarrow> entry list list \<Rightarrow> bool" where
  "placedFrom hf i [] = True"
| "placedFrom hf i (bucket # rest) =
     (list_all (\<lambda>e. hash hf (e_key e) = Some i) bucket
      \<and> distinct (map e_key bucket)
      \<and> placedFrom hf (Suc i) rest)"

definition wellFormed :: "HashMapStore \<Rightarrow> bool" where
  "wellFormed s =
     (0 < bucketCount s
      \<and> hf_bucketCount (hashFunction s) = bucketCount s
      \<and> bm_bucketCount (bucketManager s) = bucketCount s
      \<and> length (buckets (bucketManager s)) = bucketCount s)"

definition tableInvariant :: "HashMapStore \<Rightarrow> bool" where
  "tableInvariant s =
     (wellFormed s \<and> placedFrom (hashFunction s) 0 (buckets (bucketManager s)))"

definition valuesDefined :: "HashMapStore \<Rightarrow> bool" where
  "valuesDefined s = list_all (\<lambda>e. e_value e \<noteq> Undefined) (concat (buckets (bucketManager s)))"

text \<open>The state after \<open>setInBucket\<close> on bucket \<open>i\<close>, used to state what the operations do.\<close>

definition putIn :: "HashMapStore \<Rightarrow> nat \<Rightarrow> jsstring \<Rightarrow> jsvalue \<Rightarrow> HashMapStore" where
  "putIn s i k v =
     s\<lparr>bucketManager := (bucketManager s)\<lparr>buckets :=
        (buckets (bucketManager s))[i := setLoop (buckets (bucketManager s) ! i) k v]\<rparr>\<rparr>"

text \<open>The state after \<open>deleteFromBucket\<close> has found the key in bucket \<open>i\<close>.\<close>

definition takeOut :: "HashMapStore \<Rightarrow> nat \<Rightarrow> entry list \<Rightarrow> HashMapStore" where
  "takeOut s i bucket' =
     s\<lparr>bucketManager := (bucketManager s)\<lparr>buckets := (buckets (bucketManager s))[i := bucket']\<rparr>\<rparr>"

section \<open>Sequences of calls and example states\<close>

text \<open>\<open>setEach\<close> calls \<open>set\<close> for each pair in turn, stopping at the first exception.\<close>

fun setEach :: "HashMapStore \<Rightarrow> (jsstring \<times> jsstring) list \<Rightarrow> error + HashMapStore" where
  "setEach s [] = Inr s"
| "setEach s ((key, value) # rest) =
     (case set' s key value of Inl err \<Rightarrow> Inl err | Inr s' \<Rightarrow> setEach s' rest)"

text \<open>
  \<open>emptyDisk\<close>: no file yet. \<open>exampleStore\<close>: the store after \<open>set("name", "John")\<close> on a
  store constructed without a file.
\<close>

definition emptyDisk :: disk where "emptyDisk = \<lparr>fileContent = None, writes = 0\<rparr>"

definition exampleStore :: HashMapStore where
  "exampleStore =
     \<lparr>hashFunction = \<lparr>hf_bucketCount = 16\<rparr>,
      bucketManager =
        \<lparr>buckets = [[], [], [], [], [], [], [], [], [], [], [],
                     [\<lparr>e_key = js ''name'', e_value = Str (js ''John'')\<rparr>], [], [], [], []],
         bm_bucketCount = 16\<rparr>,
      disk = \<lparr>fileContent = Some (js ''name:John''), writes = 1\<rparr>,
      bucketCount = 16\<rparr>"

section \<open>Entries that survive the file\<close>

text \<open>
  A string is well-formed UTF-16 when every surrogate is half of a pair; exactly these
  strings come back unchanged from a UTF-8 file.

  \<open>entryRoundTrips e\<close> collects what \<open>load\<close> needs to give back an entry that \<open>save\<close>
  wrote: the value is a string; the key is not empty, contains no colon and does not
  start with a character that \<open>trim\<close> removes (a leading newline is written as a
  backslash, so it stays); the value does not end with a character that \<open>trim\<close> removes
  (a final newline is written as \<open>\n\<close>, so it stays); key and value are well-formed UTF-16.
\<close>

fun wellFormedUtf16 :: "jsstring \<Rightarrow> bool" where
  "wellFormedUtf16 [] = True"
| "wellFormedUtf16 [c] = (\<not> isHighSurrogate c \<and> \<not> isLowSurrogate c)"
| "wellFormedUtf16 (c # d # ds) =
     (if isHighSurrogate c then isLowSurrogate d \<and> wellFormedUtf16 ds
      else \<not> isLowSurrogate c \<and> wellFormedUtf16 (d # ds))"

definition keyRoundTrips :: "jsstring \<Rightarrow> bool" where
  "keyRoundTrips k =
     (k \<noteq> [] \<and> COLON \<notin> set k \<and> (\<not> isWhiteSpace (hd k) \<or> hd k = NEWLINE) \<and> wellFormedUtf16 k)"

definition valueRoundTrips :: "jsstring \<Rightarrow> bool" where
  "valueRoundTrips v =
     ((v = [] \<or> \<not> isWhiteSpace (last v) \<or> last v = NEWLINE) \<and> wellFormedUtf16 v)"

definition entryRoundTrips :: "entry \<Rightarrow> bool" where
  "entryRoundTrips e =
     (case e_value e of
        Str v \<Rightarrow> keyRoundTrips (e_key e) \<and> valueRoundTrips v
      | ObjectPrototype \<Rightarrow> False
      | Undefined \<Rightarrow> False)"

text \<open>
  The line of the file for one entry whose value is not \<open>undefined\<close>: the escaped key, a
  colon, the escaped value (nothing for \<open>Object.prototype\<close>).
\<close>

definition entryLine :: "entry \<Rightarrow> jsstring" where
  "entryLine e =
     escapeString (e_key e) @ [COLON]
       @ (case e_value e of Str v \<Rightarrow> escapeString v | ObjectPrototype \<Rightarrow> [] | Undefined \<Rightarrow> [])"

section \<open>Escaping and unescaping\<close>

lemma unescape_escape: "unescapeString (escapeString s @ t) = s @ unescapeString t"
proof (induction s)
  case Nil
  show ?case by simp
next
  case (Cons c cs)
  show ?case
  proof (cases "escapeString cs @ t")
    case Nil
    with Cons show ?thesis
      by (simp add: COLON_def NEWLINE_def BACKSLASH_def LETTER_N_def)
  next
    case (Cons d ds)
    with Cons.IH show ?thesis
      by (simp add: COLON_def NEWLINE_def BACKSLASH_def LETTER_N_def)
  qed
qed


text \<open>
  C4. Unescaping an escaped string gives the string back, for every string. Escaping
  writes a colon as two colons, a newline as backslash and \<open>n\<close>, a backslash as two
  backslashes; unescaping reads each of these pairs back as the one character.
\<close>

theorem unescape_escape_identity:
  "unescapeString (escapeString s) = s
   \<and> escapeString [COLON] = [COLON, COLON]
   \<and> escapeString [NEWLINE] = [BACKSLASH, LETTER_N]
   \<and> escapeString [BACKSLASH] = [BACKSLASH, BACKSLASH]
   \<and> unescapeString [BACKSLASH, LETTER_N] = [NEWLINE]
   \<and> unescapeString [BACKSLASH, BACKSLASH] = [BACKSLASH]
   \<and> unescapeString [COLON, COLON] = [COLON]"
  using unescape_escape [of s "[]"]
  by (simp add: COLON_def NEWLINE_def BACKSLASH_def LETTER_N_def)

section \<open>The hash function\<close>

text \<open>One iteration of the loop is \<open>acc * 31 + code\<close>, wrapped into the signed 32-bit range.\<close>

lemma toInt32_add_left: "toInt32 (toInt32 a + b) = toInt32 (a + b)"
proof -
  have "(toInt32 a + b + 2 ^ 31) mod 2 ^ 32 = ((a + 2 ^ 31) mod 2 ^ 32 + b) mod (2 ^ 32 :: int)"
    by (simp add: toInt32_def algebra_simps)
  also have "\<dots> = (a + 2 ^ 31 + b) mod 2 ^ 32"
    by (rule mod_add_left_eq)
  finally show ?thesis
    by (simp add: toInt32_def algebra_simps)
qed

lemma hashLoop_step_31: "toInt32 ((toInt32 (h * 2 ^ 5) - h) + c) = toInt32 (h * 31 + c)"
proof -
  have "toInt32 ((toInt32 (h * 2 ^ 5) - h) + c) = toInt32 (toInt32 (h * 2 ^ 5) + (c - h))"
    by (simp add: algebra_simps)
  also have "\<dots> = toInt32 (h * 2 ^ 5 + (c - h))"
    by (rule toInt32_add_left)
  also have "h * 2 ^ 5 + (c - h) = h * 31 + c"
    by simp
  finally show ?thesis .
qed

text \<open>
  C2, as the claim states it, fails: with 16 buckets the key \<open>age\<close> does not hash to 2.
\<close>

theorem hash_age_name_counterexample:
  "\<not> (hash \<lparr>hf_bucketCount = 16\<rparr> (js ''age'') = Some 2
      \<and> hash \<lparr>hf_bucketCount = 16\<rparr> (js ''name'') = Some 11)"
  by (simp add: hash_def js_def toInt32_def)

text \<open>
  C2, amended. With 16 buckets the key \<open>age\<close> hashes to 15 (the accumulator ends at
  96511) and the key \<open>name\<close> hashes to 11.
\<close>

theorem hash_age_name:
  "hash \<lparr>hf_bucketCount = 16\<rparr> (js ''age'') = Some 15
   \<and> hashLoop 0 (js ''age'') = 96511
   \<and> hash \<lparr>hf_bucketCount = 16\<rparr> (js ''name'') = Some 11"
  by (simp add: hash_def js_def toInt32_def)

text \<open>
  C9. For every key and every positive bucket count the hash is a number (not NaN) and
  lies in \<open>0 \<le> index < bucketCount\<close>. It is a function of the key and the bucket count
  alone: two hashers with the same bucket count agree on every key.
\<close>

theorem hash_in_range:
  "0 < hf_bucketCount hf \<Longrightarrow>
     (\<exists>i. hash hf key = Some i \<and> i < hf_bucketCount hf)
     \<and> (hf_bucketCount hf' = hf_bucketCount hf \<longrightarrow> hash hf' key = hash hf key)"
  by (simp add: hash_def nat_less_iff)

theorem hash_in_range_witness:
  "0 < hf_bucketCount \<lparr>hf_bucketCount = 16\<rparr>
   \<and> (\<exists>i. hash \<lparr>hf_bucketCount = 16\<rparr> (js ''name'') = Some i \<and> i < 16)
   \<and> hash \<lparr>hf_bucketCount = 16\<rparr> (js ''name'') = hash \<lparr>hf_bucketCount = 16\<rparr> (js ''name'')"
  using hash_in_range [where hf = "\<lparr>hf_bucketCount = 16\<rparr>" and hf' = "\<lparr>hf_bucketCount = 16\<rparr>"
      and key = "js ''name''"]
  by simp

section \<open>Bucket loops\<close>

lemma hasLoop_iff: "hasLoop b k \<longleftrightarrow> k \<in> e_key ` set b"
  by (induction b) auto

lemma getLoop_None_iff: "getLoop b k = None \<longleftrightarrow> k \<notin> e_key ` set b"
  by (induction b) auto

lemma keys_setLoop:
  "map e_key (setLoop b k v) = (if k \<in> e_key ` set b then map e_key b else map e_key b @ [k])"
  by (induction b) auto

lemma set_keys_setLoop: "e_key ` set (setLoop b k v) = insert k (e_key ` set b)"
  by (induction b) auto

lemma distinct_setLoop: "distinct (map e_key b) \<Longrightarrow> distinct (map e_key (setLoop b k v))"
  by (simp add: keys_setLoop)

lemma getLoop_setLoop: "getLoop (setLoop b k v) k' = (if k' = k then Some v else getLoop b k')"
  by (induction b) auto

lemma length_setLoop:
  "length (setLoop b k v) = (if k \<in> e_key ` set b then length b else Suc (length b))"
  by (induction b) auto

lemma deleteLoop_None_iff: "deleteLoop b k = None \<longleftrightarrow> k \<notin> e_key ` set b"
  by (induction b) (auto split: option.splits)

lemma deleteLoop_Some:
  "deleteLoop b k = Some b' \<Longrightarrow> map e_key b' = remove1 k (map e_key b) \<and> set b' \<subseteq> set b"
  by (induction b arbitrary: b') (auto split: option.splits if_splits)

lemma getLoop_deleteLoop:
  "deleteLoop b k = Some b' \<Longrightarrow> distinct (map e_key b) \<Longrightarrow>
   getLoop b' k' = (if k' = k then None else getLoop b k')"
proof (induction b arbitrary: b')
  case Nil
  then show ?case by simp
next
  case (Cons e es)
  show ?case
  proof (cases "e_key e = k")
    case True
    with Cons.prems show ?thesis
      by (auto simp: getLoop_None_iff)
  next
    case False
    with Cons.prems obtain es' where es': "deleteLoop es k = Some es'" "b' = e # es'"
      by (auto split: option.splits)
    with Cons.IH [of es'] Cons.prems False show ?thesis
      by auto
  qed
qed

section \<open>Placement of the entries\<close>

lemma placedFrom_iff:
  "placedFrom hf n bs \<longleftrightarrow>
     (\<forall>i < length bs. (\<forall>e \<in> set (bs ! i). hash hf (e_key e) = Some (n + i)) \<and> distinct (map e_key (bs ! i)))"
proof (induction bs arbitrary: n)
  case Nil
  show ?case by simp
next
  case (Cons b bs)
  show ?case
    by (simp add: Cons.IH list_all_iff All_less_Suc2)
qed


lemma placedFrom_replicate: "placedFrom hf n (replicate m [])"
  by (simp add: placedFrom_iff)

lemma placedFrom_update:
  assumes "placedFrom hf n bs" and "i < length bs"
    and "\<forall>e \<in> set b. hash hf (e_key e) = Some (n + i)" and "distinct (map e_key b)"
  shows "placedFrom hf n (bs[i := b])"
  using assms by (auto simp: placedFrom_iff nth_list_update)

lemma setLoop_members:
  "e \<in> set (setLoop b k v) \<Longrightarrow> e_key e = k \<or> e \<in> set b"
  by (induction b) (auto split: if_splits)

lemma placed_key_bucket:
  assumes "placedFrom hf 0 bs" and "i < length bs" and "k \<in> e_key ` set (bs ! i)"
  shows "hash hf k = Some i"
  using assms by (auto simp: placedFrom_iff)

lemma keys_concat_iff:
  "k \<in> e_key ` set (concat bs) \<longleftrightarrow> (\<exists>i < length bs. k \<in> e_key ` set (bs ! i))"
proof
  assume "k \<in> e_key ` set (concat bs)"
  then obtain e b where "e \<in> set b" "b \<in> set bs" "k = e_key e"
    by auto
  then show "\<exists>i < length bs. k \<in> e_key ` set (bs ! i)"
    by (metis imageI in_set_conv_nth)
next
  assume "\<exists>i < length bs. k \<in> e_key ` set (bs ! i)"
  then obtain i e where "i < length bs" "e \<in> set (bs ! i)" "k = e_key e"
    by auto
  then have "e \<in> set (concat bs)"
    using nth_mem [of i bs] by auto
  with \<open>k = e_key e\<close> show "k \<in> e_key ` set (concat bs)"
    by blast
qed

lemma wellFormed_hash:
  assumes "wellFormed s"
  obtains i where "hash (hashFunction s) k = Some i" and "i < length (buckets (bucketManager s))"
  using assms by (auto simp: wellFormed_def hash_def nat_less_iff)

lemma has_present:
  assumes "tableInvariant s"
  shows "has s k = Inr (k \<in> set (getAllKeys (bucketManager s)))"
proof -
  from assms have wf: "wellFormed s" and pl: "placedFrom (hashFunction s) 0 (buckets (bucketManager s))"
    by (simp_all add: tableInvariant_def)
  from wf obtain i where i: "hash (hashFunction s) k = Some i" "i < length (buckets (bucketManager s))"
    by (rule wellFormed_hash)
  have "k \<in> e_key ` set (concat (buckets (bucketManager s))) \<longleftrightarrow> k \<in> e_key ` set (buckets (bucketManager s) ! i)"
  proof
    assume "k \<in> e_key ` set (concat (buckets (bucketManager s)))"
    then obtain j where j: "j < length (buckets (bucketManager s))" "k \<in> e_key ` set (buckets (bucketManager s) ! j)"
      unfolding keys_concat_iff by blast
    with pl have "hash (hashFunction s) k = Some j"
      by (rule placed_key_bucket)
    with i have "j = i" by simp
    with j show "k \<in> e_key ` set (buckets (bucketManager s) ! i)" by simp
  next
    assume "k \<in> e_key ` set (buckets (bucketManager s) ! i)"
    with i show "k \<in> e_key ` set (concat (buckets (bucketManager s)))"
      unfolding keys_concat_iff by blast
  qed
  with i show ?thesis
    by (simp add: has_def hasInBucket_def hasLoop_iff getAllKeys_def)
qed


lemma setWithoutSave_eq:
  assumes "hash (hashFunction s) k = Some i" and "i < length (buckets (bucketManager s))"
  shows "setWithoutSave s k v = Inr (putIn s i k v)"
  using assms by (simp add: setWithoutSave_def putIn_def)

lemma putIn_fields [simp]:
  "bucketCount (putIn s i k v) = bucketCount s"
  "hashFunction (putIn s i k v) = hashFunction s"
  "disk (putIn s i k v) = disk s"
  "length (buckets (bucketManager (putIn s i k v))) = length (buckets (bucketManager s))"
  "bm_bucketCount (bucketManager (putIn s i k v)) = bm_bucketCount (bucketManager s)"
  by (simp_all add: putIn_def)

lemma putIn_invariant:
  assumes "tableInvariant s" and "hash (hashFunction s) k = Some i"
    and "i < length (buckets (bucketManager s))"
  shows "tableInvariant (putIn s i k v)"
proof -
  let ?bs = "buckets (bucketManager s)"
  from assms(1) have wf: "wellFormed s" and pl: "placedFrom (hashFunction s) 0 ?bs"
    by (simp_all add: tableInvariant_def)
  from pl assms(3) have old: "\<forall>e \<in> set (?bs ! i). hash (hashFunction s) (e_key e) = Some i"
    and dist: "distinct (map e_key (?bs ! i))"
    by (simp_all add: placedFrom_iff)
  have "\<forall>e \<in> set (setLoop (?bs ! i) k v). hash (hashFunction s) (e_key e) = Some (0 + i)"
    using old assms(2) by (auto dest: setLoop_members)
  with pl assms(3) have "placedFrom (hashFunction s) 0 (?bs[i := setLoop (?bs ! i) k v])"
    by (rule placedFrom_update) (rule distinct_setLoop [OF dist])
  with wf show ?thesis
    by (simp add: tableInvariant_def wellFormed_def putIn_def)
qed

lemma getLoop_Some_member:
  "getLoop b k = Some v \<Longrightarrow> \<lparr>e_key = k, e_value = v\<rparr> \<in> set b"
  by (induction b) (auto split: if_splits)

lemma get_eq:
  assumes "hash (hashFunction s) k = Some i" and "i < length (buckets (bucketManager s))"
  shows "get s k = Inr (getLoop (buckets (bucketManager s) ! i) k)"
  using assms by (simp add: get_def getFromBucket_def)

lemma get_putIn:
  assumes "tableInvariant s" and "hash (hashFunction s) k = Some i"
    and "i < length (buckets (bucketManager s))"
  shows "get (putIn s i k v) k' = (if k' = k then Inr (Some v) else get s k')"
proof -
  from assms(1) have wf: "wellFormed s" by (simp add: tableInvariant_def)
  then obtain j where j: "hash (hashFunction s) k' = Some j" "j < length (buckets (bucketManager s))"
    by (rule wellFormed_hash)
  have "get (putIn s i k v) k' = Inr (getLoop (buckets (bucketManager (putIn s i k v)) ! j) k')"
    using j by (intro get_eq) simp_all
  also have "\<dots> = (if k' = k then Inr (Some v) else Inr (getLoop (buckets (bucketManager s) ! j) k'))"
    using assms(2,3) j by (auto simp: putIn_def nth_list_update getLoop_setLoop)
  also have "\<dots> = (if k' = k then Inr (Some v) else get s k')"
    using j by (simp add: get_eq)
  finally show ?thesis .
qed

lemma keys_putIn:
  assumes "i < length (buckets (bucketManager s))"
  shows "set (getAllKeys (bucketManager (putIn s i k v))) = insert k (set (getAllKeys (bucketManager s)))"
proof -
  let ?bs = "buckets (bucketManager s)"
  have "\<And>k'. k' \<in> e_key ` set (concat (?bs[i := setLoop (?bs ! i) k v]))
          \<longleftrightarrow> k' = k \<or> k' \<in> e_key ` set (concat ?bs)"
    unfolding keys_concat_iff using assms
    by (auto simp: nth_list_update set_keys_setLoop split: if_splits)
  then have eq: "e_key ` set (concat (?bs[i := setLoop (?bs ! i) k v])) = insert k (e_key ` set (concat ?bs))"
    by (intro set_eqI) (simp only: insert_iff)
  have new: "buckets (bucketManager (putIn s i k v)) = ?bs[i := setLoop (?bs ! i) k v]"
    by (simp add: putIn_def)
  show ?thesis
    unfolding getAllKeys_def new set_map by (rule eq)
qed


lemma reinsert_ok:
  assumes "tableInvariant s"
  shows "\<exists>s'. reinsert s allData ks = Inr s' \<and> tableInvariant s'
           \<and> bucketCount s' = bucketCount s \<and> hashFunction s' = hashFunction s
           \<and> disk s' = disk s
           \<and> set (getAllKeys (bucketManager s')) = set (getAllKeys (bucketManager s)) \<union> set ks
           \<and> (\<forall>k. get s' k = (if k \<in> set ks then Inr (Some (objGet allData k)) else get s k))"
  using assms
proof (induction ks arbitrary: s)
  case Nil
  then show ?case by simp
next
  case (Cons k ks)
  from Cons.prems have wf: "wellFormed s" by (simp add: tableInvariant_def)
  then obtain i where i: "hash (hashFunction s) k = Some i" "i < length (buckets (bucketManager s))"
    by (rule wellFormed_hash)
  let ?s1 = "putIn s i k (objGet allData k)"
  have inv1: "tableInvariant ?s1"
    using Cons.prems i by (rule putIn_invariant)
  from Cons.IH [OF inv1] obtain s' where s':
    "reinsert ?s1 allData ks = Inr s'" "tableInvariant s'"
    "bucketCount s' = bucketCount ?s1" "hashFunction s' = hashFunction ?s1" "disk s' = disk ?s1"
    "set (getAllKeys (bucketManager s')) = set (getAllKeys (bucketManager ?s1)) \<union> set ks"
    "\<forall>k'. get s' k' = (if k' \<in> set ks then Inr (Some (objGet allData k')) else get ?s1 k')"
    by blast
  have step: "reinsert s allData (k # ks) = Inr s'"
    using s'(1) i by (simp add: setWithoutSave_eq)
  have keys: "set (getAllKeys (bucketManager s')) = set (getAllKeys (bucketManager s)) \<union> set (k # ks)"
    using s'(6) i(2) by (simp add: keys_putIn)
  have gets: "\<forall>k'. get s' k' = (if k' \<in> set (k # ks) then Inr (Some (objGet allData k')) else get s k')"
    using s'(7) get_putIn [OF Cons.prems i] by auto
  from step s'(2,3,4,5) keys gets show ?case
    by simp
qed

lemma fresh_invariant:
  assumes "0 < n"
  shows "tableInvariant (s\<lparr>bucketCount := n, hashFunction := \<lparr>hf_bucketCount = n\<rparr>,
                             bucketManager := newBucketManager n\<rparr>)"
  using assms
  by (simp add: tableInvariant_def wellFormed_def newBucketManager_def placedFrom_replicate)

lemma get_fresh:
  assumes "0 < n"
  shows "get (s\<lparr>bucketCount := n, hashFunction := \<lparr>hf_bucketCount = n\<rparr>,
                   bucketManager := newBucketManager n\<rparr>) k = Inr None"
  using assms
  by (simp add: get_def getFromBucket_def newBucketManager_def hash_def nat_less_iff)

lemma resize_ok:
  assumes "0 < bucketCount s"
  shows "\<exists>s'. resize s = Inr s' \<and> tableInvariant s'
           \<and> bucketCount s' = 2 * bucketCount s
           \<and> hashFunction s' = \<lparr>hf_bucketCount = 2 * bucketCount s\<rparr>
           \<and> disk s' = disk s
           \<and> set (getAllKeys (bucketManager s')) = set (getAllKeys (bucketManager s))
           \<and> (\<forall>k. get s' k = (if k \<in> set (getAllKeys (bucketManager s))
                                then Inr (Some (objGet (getAll (bucketManager s)) k))
                                else Inr None))"
proof -
  let ?n = "bucketCount s * 2"
  let ?s0 = "s\<lparr>bucketCount := ?n, hashFunction := \<lparr>hf_bucketCount = ?n\<rparr>,
                bucketManager := newBucketManager ?n\<rparr>"
  from assms have n: "0 < ?n" by simp
  from reinsert_ok [OF fresh_invariant [OF n], of s "getAll (bucketManager s)" "getAllKeys (bucketManager s)"]
  obtain s' where s': "reinsert ?s0 (getAll (bucketManager s)) (getAllKeys (bucketManager s)) = Inr s'"
    "tableInvariant s'" "bucketCount s' = bucketCount ?s0" "hashFunction s' = hashFunction ?s0"
    "disk s' = disk ?s0"
    "set (getAllKeys (bucketManager s')) = set (getAllKeys (bucketManager ?s0)) \<union> set (getAllKeys (bucketManager s))"
    "\<forall>k. get s' k = (if k \<in> set (getAllKeys (bucketManager s))
                       then Inr (Some (objGet (getAll (bucketManager s)) k)) else get ?s0 k)"
    by blast
  have "resize s = Inr s'"
    using s'(1) by (simp add: resize_def Let_def)
  moreover have "set (getAllKeys (bucketManager s')) = set (getAllKeys (bucketManager s))"
    using s'(6) by (simp add: getAllKeys_def newBucketManager_def)
  moreover have "\<forall>k. get s' k = (if k \<in> set (getAllKeys (bucketManager s))
                       then Inr (Some (objGet (getAll (bucketManager s)) k)) else Inr None)"
    using s'(7) get_fresh [OF n, of s] by simp
  ultimately show ?thesis
    using s'(2,3,4,5) by (simp add: mult.commute)
qed


lemma getAllLoop_absent: "k \<notin> e_key ` set es \<Longrightarrow> getAllLoop es m k = m k"
  by (induction es arbitrary: m) (auto simp: objSet_def)

lemma getAllLoop_present:
  assumes "distinct (map e_key es)" and "e \<in> set es" and "e_key e \<noteq> js ''__proto__''"
  shows "getAllLoop es m (e_key e) = Some (e_value e)"
  using assms
proof (induction es arbitrary: m)
  case Nil
  then show ?case by simp
next
  case (Cons x xs)
  show ?case
  proof (cases "x = e")
    case True
    with Cons.prems have "e_key e \<notin> e_key ` set xs" by auto
    then have "getAllLoop xs (objSet m (e_key e) (e_value e)) (e_key e) = objSet m (e_key e) (e_value e) (e_key e)"
      by (rule getAllLoop_absent)
    with True Cons.prems(3) show ?thesis
      by (simp add: objSet_def)
  next
    case False
    with Cons.prems have "e \<in> set xs" "distinct (map e_key xs)" by auto
    with Cons.IH Cons.prems(3) show ?thesis by simp
  qed
qed

lemma placedFrom_hash_ge:
  assumes "placedFrom hf n bs" and "e \<in> set (concat bs)"
  shows "\<exists>j \<ge> n. hash hf (e_key e) = Some j"
proof -
  from assms(2) obtain b where "b \<in> set bs" "e \<in> set b" by auto
  then obtain i where "i < length bs" "e \<in> set (bs ! i)"
    by (metis in_set_conv_nth)
  with assms(1) have "hash hf (e_key e) = Some (n + i)"
    by (simp add: placedFrom_iff)
  then show ?thesis by auto
qed

lemma placedFrom_distinct_all:
  "placedFrom hf n bs \<Longrightarrow> distinct (map e_key (concat bs))"
proof (induction bs arbitrary: n)
  case Nil
  show ?case by simp
next
  case (Cons b bs)
  from Cons.prems have b: "\<forall>e \<in> set b. hash hf (e_key e) = Some n" "distinct (map e_key b)"
    and rest: "placedFrom hf (Suc n) bs"
    by (simp_all add: list_all_iff)
  have "e_key ` set b \<inter> e_key ` set (concat bs) = {}"
  proof (rule ccontr)
    assume "e_key ` set b \<inter> e_key ` set (concat bs) \<noteq> {}"
    then obtain e e' where e: "e \<in> set b" "e' \<in> set (concat bs)" "e_key e = e_key e'"
      by blast
    from placedFrom_hash_ge [OF rest e(2)] obtain j where "Suc n \<le> j" "hash hf (e_key e') = Some j"
      by blast
    with b(1) e(1,3) show False by auto
  qed
  with b(2) Cons.IH [OF rest] show ?case
    by (simp del: set_concat)
qed

lemma objGet_getAll:
  assumes "tableInvariant s" and "k \<noteq> js ''__proto__''" and "get s k = Inr (Some v)"
  shows "objGet (getAll (bucketManager s)) k = v"
proof -
  let ?bs = "buckets (bucketManager s)"
  from assms(1) have wf: "wellFormed s" and pl: "placedFrom (hashFunction s) 0 ?bs"
    by (simp_all add: tableInvariant_def)
  from wf obtain i where i: "hash (hashFunction s) k = Some i" "i < length ?bs"
    by (rule wellFormed_hash)
  with assms(3) have "getLoop (?bs ! i) k = Some v"
    by (simp add: get_eq)
  then have "\<lparr>e_key = k, e_value = v\<rparr> \<in> set (?bs ! i)"
    by (rule getLoop_Some_member)
  with i(2) have mem: "\<lparr>e_key = k, e_value = v\<rparr> \<in> set (concat ?bs)"
    using nth_mem [of i ?bs] by auto
  from getAllLoop_present [OF placedFrom_distinct_all [OF pl] mem, of Map.empty] assms(2)
  have "getAllLoop (concat ?bs) Map.empty k = Some v"
    by simp
  with assms(2) show ?thesis
    by (simp add: objGet_def getAll_def)
qed

lemma get_present:
  assumes "tableInvariant s"
  shows "k \<in> set (getAllKeys (bucketManager s)) \<longleftrightarrow> (\<exists>v. get s k = Inr (Some v))"
proof -
  from assms have wf: "wellFormed s" by (simp add: tableInvariant_def)
  then obtain i where i: "hash (hashFunction s) k = Some i" "i < length (buckets (bucketManager s))"
    by (rule wellFormed_hash)
  have "has s k = Inr (hasLoop (buckets (bucketManager s) ! i) k)"
    using i by (simp add: has_def hasInBucket_def)
  with has_present [OF assms, of k]
  have "k \<in> set (getAllKeys (bucketManager s)) \<longleftrightarrow> k \<in> e_key ` set (buckets (bucketManager s) ! i)"
    by (simp add: hasLoop_iff)
  also have "\<dots> \<longleftrightarrow> getLoop (buckets (bucketManager s) ! i) k \<noteq> None"
    by (simp add: getLoop_None_iff)
  finally show ?thesis
    using i by (auto simp: get_eq)
qed

section \<open>The store operations\<close>

lemma saveToDisk_fields [simp]:
  "bucketManager (saveToDisk s) = bucketManager s"
  "hashFunction (saveToDisk s) = hashFunction s"
  "bucketCount (saveToDisk s) = bucketCount s"
  "disk (saveToDisk s) = save (disk s) (buckets (bucketManager s))"
  by (simp_all add: saveToDisk_def getAllBuckets_def)

lemma tableInvariant_saveToDisk [simp]: "tableInvariant (saveToDisk s) = tableInvariant s"
  by (simp add: tableInvariant_def wellFormed_def)

lemma get_saveToDisk [simp]: "get (saveToDisk s) k = get s k"
  by (simp add: get_def)

lemma has_True_index:
  assumes "has s k = Inr True"
  obtains i where "hash (hashFunction s) k = Some i" and "i < length (buckets (bucketManager s))"
    and "k \<in> e_key ` set (buckets (bucketManager s) ! i)"
proof (cases "hash (hashFunction s) k")
  case None
  with assms show ?thesis by (simp add: has_def hasInBucket_def)
next
  case (Some i)
  with assms have "i < length (buckets (bucketManager s))" "hasLoop (buckets (bucketManager s) ! i) k"
    by (auto simp: has_def hasInBucket_def split: if_splits)
  with Some that show ?thesis by (simp add: hasLoop_iff)
qed

lemma set_existing:
  assumes "hash (hashFunction s) k = Some i" and "i < length (buckets (bucketManager s))"
    and "k \<in> e_key ` set (buckets (bucketManager s) ! i)"
  shows "set' s k v = Inr (saveToDisk (putIn s i k (Str v)))"
  using assms by (simp add: set'_def has_def hasInBucket_def hasLoop_iff setWithoutSave_eq)

lemma set_new:
  assumes "hash (hashFunction s) k = Some i" and "i < length (buckets (bucketManager s))"
    and "k \<notin> e_key ` set (buckets (bucketManager s) ! i)"
  shows "set' s k v =
     (if shouldResize (putIn s i k (Str v))
      then (case resize (putIn s i k (Str v)) of Inl err \<Rightarrow> Inl err | Inr s2 \<Rightarrow> Inr (saveToDisk s2))
      else Inr (saveToDisk (putIn s i k (Str v))))"
  using assms by (simp add: set'_def has_def hasInBucket_def hasLoop_iff setWithoutSave_eq)

lemma set_invariant:
  assumes "tableInvariant s"
  shows "\<exists>s'. set' s k v = Inr s' \<and> tableInvariant s'"
proof -
  from assms have wf: "wellFormed s" by (simp add: tableInvariant_def)
  then obtain i where i: "hash (hashFunction s) k = Some i" "i < length (buckets (bucketManager s))"
    by (rule wellFormed_hash)
  have inv1: "tableInvariant (putIn s i k (Str v))"
    using assms i by (rule putIn_invariant)
  show ?thesis
  proof (cases "k \<in> e_key ` set (buckets (bucketManager s) ! i)")
    case True
    with i inv1 show ?thesis by (simp add: set_existing)
  next
    case False
    from wf have "0 < bucketCount (putIn s i k (Str v))" by (simp add: wellFormed_def)
    from resize_ok [OF this] obtain s2 where "resize (putIn s i k (Str v)) = Inr s2" "tableInvariant s2"
      by blast
    with False i inv1 show ?thesis by (simp add: set_new)
  qed
qed

lemma update_eq:
  assumes "hash (hashFunction s) k = Some i" and "i < length (buckets (bucketManager s))"
  shows "update s k v =
     (if k \<in> e_key ` set (buckets (bucketManager s) ! i)
      then Inr (True, saveToDisk (putIn s i k (Str v))) else Inr (False, s))"
  using assms by (simp add: update_def hasInBucket_def hasLoop_iff putIn_def)

lemma delete_eq:
  assumes "hash (hashFunction s) k = Some i" and "i < length (buckets (bucketManager s))"
  shows "delete s k =
     (case deleteLoop (buckets (bucketManager s) ! i) k of
        None \<Rightarrow> Inr (False, s)
      | Some bucket' \<Rightarrow> Inr (True, saveToDisk (takeOut s i bucket')))"
  using assms by (simp add: delete_def takeOut_def split: option.splits)

lemma takeOut_invariant:
  assumes "tableInvariant s" and "i < length (buckets (bucketManager s))"
    and "deleteLoop (buckets (bucketManager s) ! i) k = Some bucket'"
  shows "tableInvariant (takeOut s i bucket')"
proof -
  let ?bs = "buckets (bucketManager s)"
  from assms(1) have wf: "wellFormed s" and pl: "placedFrom (hashFunction s) 0 ?bs"
    by (simp_all add: tableInvariant_def)
  from pl assms(2) have old: "\<forall>e \<in> set (?bs ! i). hash (hashFunction s) (e_key e) = Some i"
    and dist: "distinct (map e_key (?bs ! i))"
    by (simp_all add: placedFrom_iff)
  from deleteLoop_Some [OF assms(3)]
  have sub: "set bucket' \<subseteq> set (?bs ! i)" and keys: "map e_key bucket' = remove1 k (map e_key (?bs ! i))"
    by simp_all
  from old sub have "\<forall>e \<in> set bucket'. hash (hashFunction s) (e_key e) = Some (0 + i)"
    by auto
  with pl assms(2) have "placedFrom (hashFunction s) 0 (?bs[i := bucket'])"
    by (rule placedFrom_update) (simp add: keys dist)
  with wf show ?thesis
    by (simp add: tableInvariant_def wellFormed_def takeOut_def)
qed

lemma loadLoop_ok:
  assumes "tableInvariant s"
  shows "\<exists>s'. loadLoop s es = Inr s' \<and> tableInvariant s' \<and> bucketCount s' = bucketCount s
            \<and> disk s' = disk s"
  using assms
proof (induction es arbitrary: s)
  case Nil
  then show ?case by simp
next
  case (Cons e es)
  from Cons.prems have wf: "wellFormed s" by (simp add: tableInvariant_def)
  then obtain i where i: "hash (hashFunction s) (e_key e) = Some i" "i < length (buckets (bucketManager s))"
    by (rule wellFormed_hash)
  have "tableInvariant (putIn s i (e_key e) (e_value e))"
    using Cons.prems i by (rule putIn_invariant)
  from Cons.IH [OF this] i show ?case
    by (simp add: setWithoutSave_eq)
qed

lemma newHashMapStore_ok:
  "\<exists>s. newHashMapStore d = Inr s \<and> tableInvariant s \<and> bucketCount s = 16 \<and> disk s = d"
proof -
  let ?s0 = "\<lparr>hashFunction = \<lparr>hf_bucketCount = 16\<rparr>, bucketManager = newBucketManager 16,
              disk = d, bucketCount = 16\<rparr>"
  have "tableInvariant ?s0"
    by (simp add: tableInvariant_def wellFormed_def newBucketManager_def placedFrom_replicate)
  from loadLoop_ok [OF this, of "load d"] show ?thesis
    by (simp add: newHashMapStore_def loadFromDisk_def)
qed

lemma map_update_same:
  assumes "i < length bs" and "f b' = f (bs ! i)"
  shows "map f (bs[i := b']) = map f bs"
proof -
  have "map f (bs[i := b']) = (map f bs)[i := (map f bs) ! i]"
    using assms by (simp add: map_update)
  then show ?thesis by simp
qed

lemma filter_setLoop:
  "filter (\<lambda>e. e_key e \<noteq> k) (setLoop b k v) = filter (\<lambda>e. e_key e \<noteq> k) b"
  by (induction b) auto

lemma get_putIn_same:
  assumes "hash (hashFunction s) k = Some i" and "i < length (buckets (bucketManager s))"
  shows "get (putIn s i k v) k = Inr (Some v)"
  using assms by (simp add: get_def getFromBucket_def putIn_def getLoop_setLoop)

lemma has_putIn_same:
  assumes "hash (hashFunction s) k = Some i" and "i < length (buckets (bucketManager s))"
  shows "has (saveToDisk (putIn s i k v)) k = Inr True"
  using assms by (simp add: has_def hasInBucket_def putIn_def hasLoop_iff set_keys_setLoop)

lemma putIn_existing_frame:
  assumes "i < length (buckets (bucketManager s))"
    and "k \<in> e_key ` set (buckets (bucketManager s) ! i)"
  shows "map (map e_key) (buckets (bucketManager (putIn s i k v))) = map (map e_key) (buckets (bucketManager s))"
    and "map (filter (\<lambda>e. e_key e \<noteq> k)) (buckets (bucketManager (putIn s i k v)))
         = map (filter (\<lambda>e. e_key e \<noteq> k)) (buckets (bucketManager s))"
  using assms by (simp_all add: putIn_def map_update_same keys_setLoop filter_setLoop)

section \<open>An example state\<close>

lemma js_name: "js ''name'' = [0x6E, 0x61, 0x6D, 0x65]"
  by (simp add: js_def)

lemma hash_name: "hash \<lparr>hf_bucketCount = 16\<rparr> (js ''name'') = Some 11"
  by (simp add: hash_def js_def toInt32_def)

lemma replicate_16: "replicate 16 x = [x, x, x, x, x, x, x, x, x, x, x, x, x, x, x, x]"
  by (simp add: eval_nat_numeral)

lemma newHashMapStore_emptyDisk:
  "newHashMapStore emptyDisk =
     Inr \<lparr>hashFunction = \<lparr>hf_bucketCount = 16\<rparr>,
          bucketManager = \<lparr>buckets = replicate 16 [], bm_bucketCount = 16\<rparr>,
          disk = emptyDisk, bucketCount = 16\<rparr>"
  by (simp add: newHashMapStore_def loadFromDisk_def load_def emptyDisk_def newBucketManager_def)

lemma exampleStore_reached:
  "\<exists>s0. newHashMapStore emptyDisk = Inr s0 \<and> set' s0 (js ''name'') (js ''John'') = Inr exampleStore"
  unfolding newHashMapStore_emptyDisk
  by (simp add: set'_def has_def hasInBucket_def hash_name setWithoutSave_def shouldResize_def
      getAllKeys_def saveToDisk_def getAllBuckets_def save_def writeFileSync_def exampleStore_def
      emptyDisk_def replicate_16)
    (simp add: js_def COLON_def NEWLINE_def BACKSLASH_def isHighSurrogate_def isLowSurrogate_def)

lemma exampleStore_invariant: "tableInvariant exampleStore"
  by (simp add: tableInvariant_def wellFormed_def exampleStore_def hash_name)

lemma exampleStore_has_name: "has exampleStore (js ''name'') = Inr True"
  by (simp add: has_def hasInBucket_def exampleStore_def hash_name)

section \<open>Setting a key that exists\<close>

text \<open>
  C5. In any state in which \<open>has(key)\<close> is true, any number of calls \<open>set(key, v)\<close> in a
  row, with any values, all return normally and leave \<open>bucketCount\<close>, the hash function
  and the number of buckets as they were: no call resizes. The table keeps every key at
  its place and every entry stored under another key as it was; after the calls \<open>key\<close>
  holds the value of the last call.
\<close>

theorem set_existing_key_keeps_capacity:
  assumes "has s key = Inr True"
  shows "\<exists>s'. setEach s (map (Pair key) values) = Inr s'
           \<and> bucketCount s' = bucketCount s
           \<and> hashFunction s' = hashFunction s
           \<and> bm_bucketCount (bucketManager s') = bm_bucketCount (bucketManager s)
           \<and> length (buckets (bucketManager s')) = length (buckets (bucketManager s))
           \<and> map (map e_key) (buckets (bucketManager s')) = map (map e_key) (buckets (bucketManager s))
           \<and> map (filter (\<lambda>e. e_key e \<noteq> key)) (buckets (bucketManager s'))
               = map (filter (\<lambda>e. e_key e \<noteq> key)) (buckets (bucketManager s))
           \<and> (values \<noteq> [] \<longrightarrow> get s' key = Inr (Some (Str (last values))))"
  using assms
proof (induction "values" arbitrary: s)
  case Nil
  then show ?case by simp
next
  case (Cons v vs)
  from Cons.prems obtain i where i: "hash (hashFunction s) key = Some i"
    "i < length (buckets (bucketManager s))" "key \<in> e_key ` set (buckets (bucketManager s) ! i)"
    by (rule has_True_index)
  let ?s1 = "saveToDisk (putIn s i key (Str v))"
  have step: "set' s key v = Inr ?s1"
    using i by (rule set_existing)
  have has1: "has ?s1 key = Inr True"
    using i(1,2) by (rule has_putIn_same)
  from Cons.IH [OF has1] obtain s' where s':
    "setEach ?s1 (map (Pair key) vs) = Inr s'"
    "bucketCount s' = bucketCount ?s1" "hashFunction s' = hashFunction ?s1"
    "bm_bucketCount (bucketManager s') = bm_bucketCount (bucketManager ?s1)"
    "length (buckets (bucketManager s')) = length (buckets (bucketManager ?s1))"
    "map (map e_key) (buckets (bucketManager s')) = map (map e_key) (buckets (bucketManager ?s1))"
    "map (filter (\<lambda>e. e_key e \<noteq> key)) (buckets (bucketManager s'))
       = map (filter (\<lambda>e. e_key e \<noteq> key)) (buckets (bucketManager ?s1))"
    "vs \<noteq> [] \<longrightarrow> get s' key = Inr (Some (Str (last vs)))"
    by blast
  have last: "get s' key = Inr (Some (Str (last (v # vs))))"
  proof (cases vs)
    case Nil
    with s'(1) have "s' = ?s1" by simp
    with Nil i(1,2) show ?thesis by (simp add: get_putIn_same)
  next
    case (Cons w ws)
    with s'(8) show ?thesis by simp
  qed
  from step s' last putIn_existing_frame [OF i(2,3), of "Str v"] show ?case
    by simp
qed

theorem set_existing_key_keeps_capacity_witness:
  "has exampleStore (js ''name'') = Inr True
   \<and> (\<exists>s'. setEach exampleStore (map (Pair (js ''name'')) [js ''Jane'', js ''Joan'']) = Inr s'
          \<and> bucketCount s' = bucketCount exampleStore
          \<and> get s' (js ''name'') = Inr (Some (Str (js ''Joan''))))"
  using set_existing_key_keeps_capacity [OF exampleStore_has_name, of "[js ''Jane'', js ''Joan'']"]
    exampleStore_has_name
  by auto

section \<open>Values that can be saved\<close>

lemma escapeValue_defined: "v \<noteq> Undefined \<Longrightarrow> \<exists>safe. escapeValue v = Inr safe"
  by (cases v) simp_all

lemma saveLines_defined:
  "list_all (\<lambda>e. e_value e \<noteq> Undefined) es \<Longrightarrow> \<exists>lines. saveLines es = Inr lines"
proof (induction es)
  case Nil
  show ?case by simp
next
  case (Cons e es)
  then obtain lines safe where "saveLines es = Inr lines" "escapeValue (e_value e) = Inr safe"
    using escapeValue_defined [of "e_value e"] by auto
  then show ?case by simp
qed

lemma save_writes:
  assumes "list_all (\<lambda>e. e_value e \<noteq> Undefined) (concat bs)"
  shows "writes (save d bs) = writes d + 1"
  using saveLines_defined [OF assms] by (auto simp: save_def writeFileSync_def)

lemma setLoop_values: "e \<in> set (setLoop b k v) \<Longrightarrow> e_value e = v \<or> e \<in> set b"
  by (induction b) (auto split: if_splits)

lemma concat_update_members:
  assumes "e \<in> set (concat (bs[i := b']))"
  shows "e \<in> set b' \<or> e \<in> set (concat bs)"
proof -
  from assms obtain b where b: "b \<in> set (bs[i := b'])" "e \<in> set b" by auto
  from b(1) have "b = b' \<or> b \<in> set bs"
    using set_update_subset_insert [of bs i b'] by auto
  with b(2) show ?thesis by auto
qed

lemma valuesDefined_putIn:
  assumes "valuesDefined s" and "v \<noteq> Undefined" and "i < length (buckets (bucketManager s))"
  shows "valuesDefined (putIn s i k v)"
  unfolding valuesDefined_def list_all_iff
proof
  fix e assume "e \<in> set (concat (buckets (bucketManager (putIn s i k v))))"
  then have "e \<in> set (setLoop (buckets (bucketManager s) ! i) k v)
             \<or> e \<in> set (concat (buckets (bucketManager s)))"
    unfolding putIn_def using concat_update_members by simp
  then have "e_value e = v \<or> e \<in> set (concat (buckets (bucketManager s)))"
    using setLoop_values [of e "buckets (bucketManager s) ! i" k v] nth_mem [OF assms(3)]
    by auto
  with assms(1,2) show "e_value e \<noteq> Undefined"
    by (auto simp: valuesDefined_def list_all_iff)
qed

section \<open>Deleting\<close>

lemma get_takeOut:
  assumes "tableInvariant s" and "hash (hashFunction s) k = Some i"
    and "i < length (buckets (bucketManager s))"
    and "deleteLoop (buckets (bucketManager s) ! i) k = Some bucket'"
  shows "get (takeOut s i bucket') k' = (if k' = k then Inr None else get s k')"
proof -
  let ?bs = "buckets (bucketManager s)"
  from assms(1) have wf: "wellFormed s" and pl: "placedFrom (hashFunction s) 0 ?bs"
    by (simp_all add: tableInvariant_def)
  from pl assms(3) have dist: "distinct (map e_key (?bs ! i))"
    by (simp add: placedFrom_iff)
  from wf obtain j where j: "hash (hashFunction s) k' = Some j" "j < length ?bs"
    by (rule wellFormed_hash)
  have "get (takeOut s i bucket') k' = Inr (getLoop ((?bs[i := bucket']) ! j) k')"
    using j by (simp add: get_def getFromBucket_def takeOut_def)
  also have "\<dots> = (if k' = k then Inr None else Inr (getLoop (?bs ! j) k'))"
    using assms(2,3) j getLoop_deleteLoop [OF assms(4) dist, of k']
    by (auto simp: nth_list_update)
  also have "\<dots> = (if k' = k then Inr None else get s k')"
    using j by (simp add: get_eq)
  finally show ?thesis .
qed

text \<open>
  C6. In a state that satisfies the table invariant, \<open>delete(key)\<close> of a key that is not
  in the table returns false and leaves the whole state as it was: every bucket,
  \<open>bucketCount\<close>, and the file with its count of writes. For a key in the table it
  returns true, after which the key is gone, every other key holds what it held, and
  \<open>save\<close> has been called with the new table.
\<close>

theorem delete_absent_is_noop:
  assumes "tableInvariant s"
  shows "(key \<notin> set (getAllKeys (bucketManager s)) \<longrightarrow> delete s key = Inr (False, s))
       \<and> (key \<in> set (getAllKeys (bucketManager s)) \<longrightarrow>
            (\<exists>s'. delete s key = Inr (True, s')
               \<and> key \<notin> set (getAllKeys (bucketManager s'))
               \<and> get s' key = Inr None
               \<and> (\<forall>k'. k' \<noteq> key \<longrightarrow> get s' k' = get s k')
               \<and> bucketCount s' = bucketCount s
               \<and> length (buckets (bucketManager s')) = length (buckets (bucketManager s))
               \<and> disk s' = save (disk s) (buckets (bucketManager s'))))"
proof -
  from assms have wf: "wellFormed s" by (simp add: tableInvariant_def)
  then obtain i where i: "hash (hashFunction s) key = Some i" "i < length (buckets (bucketManager s))"
    by (rule wellFormed_hash)
  have present: "key \<in> set (getAllKeys (bucketManager s)) \<longleftrightarrow> key \<in> e_key ` set (buckets (bucketManager s) ! i)"
    using has_present [OF assms, of key] i by (simp add: has_def hasInBucket_def hasLoop_iff)
  show ?thesis
  proof (cases "deleteLoop (buckets (bucketManager s) ! i) key")
    case None
    then have "key \<notin> set (getAllKeys (bucketManager s))"
      using present by (simp add: deleteLoop_None_iff)
    with None i show ?thesis by (simp add: delete_eq)
  next
    case (Some bucket')
    let ?s' = "saveToDisk (takeOut s i bucket')"
    from Some have in_table: "key \<in> set (getAllKeys (bucketManager s))"
      using present deleteLoop_None_iff [of "buckets (bucketManager s) ! i" key] by simp
    have d: "delete s key = Inr (True, ?s')"
      using i Some by (simp add: delete_eq)
    have inv': "tableInvariant (takeOut s i bucket')"
      using assms i(2) Some by (rule takeOut_invariant)
    have g: "\<forall>k'. get ?s' k' = (if k' = key then Inr None else get s k')"
      using get_takeOut [OF assms i Some] by simp
    then have "get (takeOut s i bucket') key = Inr None" by simp
    with get_present [OF inv', of key] have gone: "key \<notin> set (getAllKeys (bucketManager ?s'))"
      by simp
    from d g gone in_table show ?thesis
      by (simp add: takeOut_def)
  qed
qed

theorem delete_absent_is_noop_witness:
  "tableInvariant exampleStore
   \<and> delete exampleStore (js ''missing'') = Inr (False, exampleStore)
   \<and> (\<exists>s'. delete exampleStore (js ''name'') = Inr (True, s') \<and> get s' (js ''name'') = Inr None)"
proof -
  have name: "js ''name'' \<in> set (getAllKeys (bucketManager exampleStore))"
    and missing: "js ''missing'' \<notin> set (getAllKeys (bucketManager exampleStore))"
    by (simp_all add: exampleStore_def getAllKeys_def js_def)
  from delete_absent_is_noop [OF exampleStore_invariant, of "js ''name''"] name
    delete_absent_is_noop [OF exampleStore_invariant, of "js ''missing''"] missing
    exampleStore_invariant
  show ?thesis by auto
qed

section \<open>The invariant is kept\<close>

lemma count_list_distinct: "distinct xs \<Longrightarrow> x \<in> set xs \<Longrightarrow> count_list xs x = 1"
  by (induction xs) auto

text \<open>
  C8. The table invariant (every entry lies in the bucket whose index is the hash of its
  key under the current bucket count, and no bucket holds a key twice) holds for a newly
  constructed store, whatever the file contains, and is kept by \<open>set\<close>, \<open>update\<close>,
  \<open>delete\<close> and \<open>resize\<close>, none of which throws from such a state; \<open>resize\<close>
  establishes it for twice the bucket count. In a state that satisfies it, every key of
  the table occurs in exactly one bucket, the one its hash names, and exactly once in the
  whole table.
\<close>

theorem invariant_preserved:
  assumes "tableInvariant s"
  shows "(\<exists>s'. set' s key value = Inr s' \<and> tableInvariant s')
       \<and> (\<exists>updated s'. update s key value = Inr (updated, s') \<and> tableInvariant s')
       \<and> (\<exists>deleted s'. delete s key = Inr (deleted, s') \<and> tableInvariant s')
       \<and> (\<exists>s'. resize s = Inr s' \<and> tableInvariant s' \<and> bucketCount s' = 2 * bucketCount s)
       \<and> (\<exists>s0. newHashMapStore d = Inr s0 \<and> tableInvariant s0)
       \<and> (\<forall>k \<in> set (getAllKeys (bucketManager s)).
             \<exists>i < bucketCount s.
               hash (hashFunction s) k = Some i
               \<and> (\<forall>j < length (buckets (bucketManager s)).
                     k \<in> e_key ` set (buckets (bucketManager s) ! j) \<longleftrightarrow> j = i)
               \<and> count_list (getAllKeys (bucketManager s)) k = 1)"
proof -
  let ?bs = "buckets (bucketManager s)"
  from assms have wf: "wellFormed s" and pl: "placedFrom (hashFunction s) 0 ?bs"
    by (simp_all add: tableInvariant_def)
  from wf obtain i where i: "hash (hashFunction s) key = Some i" "i < length ?bs"
    by (rule wellFormed_hash)
  have c1: "\<exists>s'. set' s key value = Inr s' \<and> tableInvariant s'"
    using assms by (rule set_invariant)
  have c2: "\<exists>updated s'. update s key value = Inr (updated, s') \<and> tableInvariant s'"
    using i assms putIn_invariant [OF assms i, of "Str value"] by (auto simp: update_eq)
  have c3: "\<exists>deleted s'. delete s key = Inr (deleted, s') \<and> tableInvariant s'"
  proof (cases "deleteLoop (?bs ! i) key")
    case None
    with i assms show ?thesis by (auto simp: delete_eq)
  next
    case (Some bucket')
    with i takeOut_invariant [OF assms i(2) Some] show ?thesis by (auto simp: delete_eq)
  qed
  have c4: "\<exists>s'. resize s = Inr s' \<and> tableInvariant s' \<and> bucketCount s' = 2 * bucketCount s"
    using resize_ok [of s] wf by (auto simp: wellFormed_def)
  have c5: "\<exists>s0. newHashMapStore d = Inr s0 \<and> tableInvariant s0"
    using newHashMapStore_ok [of d] by blast
  have c6: "\<exists>i < bucketCount s. hash (hashFunction s) k = Some i
               \<and> (\<forall>j < length ?bs. k \<in> e_key ` set (?bs ! j) \<longleftrightarrow> j = i)
               \<and> count_list (getAllKeys (bucketManager s)) k = 1"
    if k: "k \<in> set (getAllKeys (bucketManager s))" for k
  proof -
    from k obtain m where m: "m < length ?bs" "k \<in> e_key ` set (?bs ! m)"
      unfolding getAllKeys_def set_map keys_concat_iff by blast
    with pl have h: "hash (hashFunction s) k = Some m"
      by (rule placed_key_bucket)
    have only: "\<forall>j < length ?bs. k \<in> e_key ` set (?bs ! j) \<longleftrightarrow> j = m"
    proof (intro allI impI iffI)
      fix j assume "j < length ?bs" "k \<in> e_key ` set (?bs ! j)"
      with pl have "hash (hashFunction s) k = Some j" by (rule placed_key_bucket)
      with h show "j = m" by simp
    next
      fix j assume "j = m"
      with m show "k \<in> e_key ` set (?bs ! j)" by simp
    qed
    have "distinct (getAllKeys (bucketManager s))"
      using placedFrom_distinct_all [OF pl] by (simp add: getAllKeys_def)
    with k have "count_list (getAllKeys (bucketManager s)) k = 1"
      by (simp add: count_list_distinct)
    with h only m(1) wf show ?thesis
      by (auto simp: wellFormed_def)
  qed
  from c1 c2 c3 c4 c5 c6 show ?thesis by blast
qed

theorem invariant_preserved_witness:
  "tableInvariant exampleStore
   \<and> (\<exists>s'. set' exampleStore (js ''age'') (js ''25'') = Inr s' \<and> tableInvariant s')
   \<and> (\<exists>s'. resize exampleStore = Inr s' \<and> tableInvariant s' \<and> bucketCount s' = 32)
   \<and> js ''name'' \<in> set (getAllKeys (bucketManager exampleStore))
   \<and> (\<exists>i < 16. hash (hashFunction exampleStore) (js ''name'') = Some i
          \<and> count_list (getAllKeys (bucketManager exampleStore)) (js ''name'') = 1)"
proof -
  have name: "js ''name'' \<in> set (getAllKeys (bucketManager exampleStore))"
    by (simp add: exampleStore_def getAllKeys_def)
  have bc: "bucketCount exampleStore = 16"
    by (simp add: exampleStore_def)
  from invariant_preserved [OF exampleStore_invariant, of "js ''age''" "js ''25''" emptyDisk]
    name bc exampleStore_invariant
  show ?thesis by auto
qed

section \<open>indexOfString for a one-character search\<close>

lemma matchLoop_single: "matchLoop str [c] i 0 \<longleftrightarrow> i < length str \<and> str ! i = c"
  by (simp add: matchLoop.simps [of str "[c]" i 0] matchLoop.simps [of str "[c]" i "Suc 0"] charAt_def)

lemma indexLoop_found:
  assumes "c \<notin> set pre" and "i \<le> length pre"
  shows "indexLoop (pre @ c # post) [c] i = int (length pre)"
  using assms
proof (induction "length pre - i" arbitrary: i)
  case 0
  then have "i = length pre" by simp
  then show ?case
    by (subst indexLoop.simps) (simp add: matchLoop_single)
next
  case (Suc n)
  then have lt: "i < length pre" by simp
  with Suc.prems have "(pre @ c # post) ! i \<noteq> c"
    by (metis nth_append nth_mem)
  moreover from Suc have "indexLoop (pre @ c # post) [c] (i + 1) = int (length pre)"
    by simp
  ultimately show ?case
    using lt by (subst indexLoop.simps) (simp add: matchLoop_single)
qed

lemma indexOfString_first:
  "c \<notin> set pre \<Longrightarrow> indexOfString (pre @ c # post) [c] = int (length pre)"
  by (simp add: indexOfString_def indexLoop_found)

section \<open>unescapeString keeps a string non-empty\<close>

lemma unescapeString_Nil_iff: "unescapeString s = [] \<longleftrightarrow> s = []"
  by (induction s rule: unescapeString.induct) auto

section \<open>trim\<close>

lemma trim_keeps_first:
  assumes "\<not> isWhiteSpace c"
  shows "trim (c # rest) = c # rev (dropWhile isWhiteSpace (rev rest))"
  using assms by (simp add: trim_def dropWhile_append3)

lemma trim_id:
  assumes "line \<noteq> []" and "\<not> isWhiteSpace (hd line)" and "\<not> isWhiteSpace (last line)"
  shows "trim line = line"
proof -
  from assms(1,2) have "dropWhile isWhiteSpace line = line"
    by (cases line) simp_all
  moreover from assms(1,3) have "dropWhile isWhiteSpace (rev line) = rev line"
    by (cases "rev line") (simp_all add: hd_rev)
  ultimately show ?thesis by (simp add: trim_def)
qed

lemma isWhiteSpace_COLON [simp]: "\<not> isWhiteSpace COLON"
  by (simp add: isWhiteSpace_def COLON_def)

lemma loadLine_leading_colon: "loadLine (COLON # rest) = None"
proof -
  have "trim (COLON # rest) = [] @ COLON # rev (dropWhile isWhiteSpace (rev rest))"
    by (simp add: trim_keeps_first)
  moreover have "indexOfString ([] @ COLON # rev (dropWhile isWhiteSpace (rev rest))) [COLON] = int (length ([] :: jsstring))"
    by (rule indexOfString_first) simp
  ultimately show ?thesis
    by (simp add: loadLine_def Let_def)
qed

lemma loadLine_key_nonempty:
  assumes "loadLine l = Some e"
  shows "e_key e \<noteq> []"
proof -
  from assms obtain ci where ci: "ci > 0" "trim l \<noteq> []"
    "e_key e = unescapeString (take (nat ci) (trim l))"
    by (auto simp: loadLine_def Let_def split: if_splits)
  then have "take (nat ci) (trim l) \<noteq> []" by simp
  with ci(3) show ?thesis by (simp add: unescapeString_Nil_iff)
qed

lemma map_filter_member: "y \<in> set (List.map_filter f xs) \<Longrightarrow> \<exists>x \<in> set xs. f x = Some y"
  by (induction xs) (auto split: option.splits)

lemma load_keys_nonempty: "e \<in> set (load d) \<Longrightarrow> e_key e \<noteq> []"
  by (auto simp: load_def split: option.splits dest!: map_filter_member dest: loadLine_key_nonempty)

section \<open>What save writes\<close>

lemma saveLines_member:
  assumes "saveLines es = Inr lines" and "e \<in> set es"
  shows "\<exists>safe. escapeValue (e_value e) = Inr safe \<and> escapeString (e_key e) @ COLON # safe \<in> set lines"
  using assms
proof (induction es arbitrary: lines)
  case Nil
  then show ?case by simp
next
  case (Cons x xs)
  from Cons.prems(1) obtain safe rest where x: "escapeValue (e_value x) = Inr safe"
    and rest: "saveLines xs = Inr rest" and lines: "lines = (escapeString (e_key x) @ COLON # safe) # rest"
    by (auto split: sum.splits)
  show ?case
  proof (cases "e = x")
    case True
    with x lines show ?thesis by simp
  next
    case False
    with Cons.prems(2) have "e \<in> set xs" by simp
    from Cons.IH [OF rest this] lines show ?thesis by auto
  qed
qed

lemma save_content:
  "saveLines (concat bs) = Inr lines \<Longrightarrow> fileContent (save d bs) = Some (utf8 (join lines [NEWLINE]))"
  by (simp add: save_def writeFileSync_def)

text \<open>
  C10. When the table holds an entry whose key is the empty string, the lines that
  \<open>save\<close> joins and writes include one that begins with the colon separator. \<open>load\<close>
  skips every line that begins with a colon, and more generally every line whose first
  colon (after trimming) is at position 0. So no entry that \<open>load\<close> returns has the empty
  key, after a \<open>save\<close> or from any other file content.
\<close>

theorem load_skips_empty_key:
  "(saveLines (concat bs) = Inr lines \<longrightarrow>
      fileContent (save d bs) = Some (utf8 (join lines [NEWLINE]))
      \<and> (\<forall>e \<in> set (concat bs). e_key e = [] \<longrightarrow> (\<exists>rest. COLON # rest \<in> set lines)))
   \<and> loadLine (COLON # rest) = None
   \<and> (\<forall>l. indexOfString (trim l) [COLON] = 0 \<longrightarrow> loadLine l = None)
   \<and> (\<forall>e \<in> set (load (save d bs)). e_key e \<noteq> [])
   \<and> (\<forall>e \<in> set (load d). e_key e \<noteq> [])"
proof -
  have "\<exists>rest. COLON # rest \<in> set lines"
    if "saveLines (concat bs) = Inr lines" "e \<in> set (concat bs)" "e_key e = []" for e
    using saveLines_member [OF that(1,2)] that(3) by auto
  moreover have "\<forall>l. indexOfString (trim l) [COLON] = 0 \<longrightarrow> loadLine l = None"
    by (simp add: loadLine_def Let_def)
  ultimately show ?thesis
    using load_keys_nonempty save_content loadLine_leading_colon by blast
qed

theorem load_skips_empty_key_witness:
  "saveLines (concat [[\<lparr>e_key = [], e_value = Str (js ''v'')\<rparr>, \<lparr>e_key = js ''k'', e_value = Str (js ''w'')\<rparr>]])
     = Inr [js '':v'', js ''k:w'']
   \<and> \<lparr>e_key = [], e_value = Str (js ''v'')\<rparr>
        \<in> set (concat [[\<lparr>e_key = [], e_value = Str (js ''v'')\<rparr>, \<lparr>e_key = js ''k'', e_value = Str (js ''w'')\<rparr>]])
   \<and> (\<exists>rest. COLON # rest \<in> set [js '':v'', js ''k:w''])
   \<and> indexOfString (trim (js '':v'')) [COLON] = 0
   \<and> loadLine (js '':v'') = None
   \<and> load (save emptyDisk [[\<lparr>e_key = [], e_value = Str (js ''v'')\<rparr>, \<lparr>e_key = js ''k'', e_value = Str (js ''w'')\<rparr>]])
       = [\<lparr>e_key = js ''k'', e_value = Str (js ''w'')\<rparr>]
   \<and> e_key \<lparr>e_key = js ''k'', e_value = Str (js ''w'')\<rparr> \<noteq> []"
  using load_skips_empty_key [of "[[\<lparr>e_key = [], e_value = Str (js ''v'')\<rparr>, \<lparr>e_key = js ''k'', e_value = Str (js ''w'')\<rparr>]]"
      "[js '':v'', js ''k:w'']" emptyDisk "js ''v''"]
  by (simp add: js_def COLON_def NEWLINE_def BACKSLASH_def LETTER_N_def emptyDisk_def save_def
      writeFileSync_def load_def splitString_def loadLine_def trim_def isWhiteSpace_def
      indexOfString_def indexLoop.simps matchLoop.simps charAt_def
      isHighSurrogate_def isLowSurrogate_def Let_def)

section \<open>splitString undoes join\<close>

lemma splitLoop_no_delimiter:
  "c \<notin> set l \<Longrightarrow> splitLoop (l @ rest) [c] result current = splitLoop rest [c] result (current @ l)"
  by (induction l arbitrary: current) auto

lemma splitLoop_join:
  assumes "\<forall>l \<in> set (l0 # ls). c \<notin> set l"
  shows "splitLoop (join (l0 # ls) [c]) [c] result current = result @ (current @ l0) # ls"
  using assms
proof (induction ls arbitrary: l0 result current)
  case Nil
  then have "splitLoop (l0 @ []) [c] result current = splitLoop [] [c] result (current @ l0)"
    by (intro splitLoop_no_delimiter) simp
  then show ?case by simp
next
  case (Cons m ms)
  from Cons.prems have l0: "c \<notin> set l0" and rest: "\<forall>l \<in> set (m # ms). c \<notin> set l"
    by simp_all
  have "splitLoop (join (l0 # m # ms) [c]) [c] result current
        = splitLoop (l0 @ (c # join (m # ms) [c])) [c] result current"
    by simp
  also have "\<dots> = splitLoop (c # join (m # ms) [c]) [c] result (current @ l0)"
    using l0 by (rule splitLoop_no_delimiter)
  also have "\<dots> = splitLoop (join (m # ms) [c]) [c] (result @ [current @ l0]) []"
    by simp
  also have "\<dots> = (result @ [current @ l0]) @ ([] @ m) # ms"
    using rest by (rule Cons.IH)
  finally show ?case by simp
qed

lemma splitString_join:
  assumes "lines \<noteq> []" and "\<forall>l \<in> set lines. c \<notin> set l"
  shows "splitString (join lines [c]) [c] = lines"
proof -
  from assms(1) obtain l0 ls where "lines = l0 # ls" by (cases lines) auto
  with assms(2) splitLoop_join [of l0 ls c "[]" "[]"] show ?thesis
    by (simp add: splitString_def)
qed

section \<open>What escapeString produces\<close>

lemma escapeString_append: "escapeString (a @ b) = escapeString a @ escapeString b"
  by (induction a) auto

lemma escapeString_Nil_iff: "escapeString s = [] \<longleftrightarrow> s = []"
  by (cases s) auto

lemma newline_not_in_escapeString: "NEWLINE \<notin> set (escapeString s)"
  by (induction s) (auto simp: COLON_def NEWLINE_def BACKSLASH_def LETTER_N_def)

lemma colon_not_in_escapeString: "COLON \<notin> set s \<Longrightarrow> COLON \<notin> set (escapeString s)"
  by (induction s) (auto simp: COLON_def NEWLINE_def BACKSLASH_def LETTER_N_def)

lemma hd_escapeString:
  assumes "s \<noteq> []" and "\<not> isWhiteSpace (hd s) \<or> hd s = NEWLINE"
  shows "\<not> isWhiteSpace (hd (escapeString s))"
  using assms
  by (cases s) (auto simp: isWhiteSpace_def COLON_def NEWLINE_def BACKSLASH_def LETTER_N_def)

lemma last_escapeString:
  assumes "s \<noteq> []" and "\<not> isWhiteSpace (last s) \<or> last s = NEWLINE"
  shows "\<not> isWhiteSpace (last (escapeString s))"
proof -
  from assms(1) obtain xs c where s: "s = xs @ [c]"
    by (metis rev_exhaust)
  with assms(2) have "\<not> isWhiteSpace (last (escapeString [c]))"
    by (auto simp: isWhiteSpace_def COLON_def NEWLINE_def BACKSLASH_def LETTER_N_def)
  moreover have "escapeString [c] \<noteq> []" by simp
  ultimately show ?thesis
    unfolding s escapeString_append by simp
qed

section \<open>Well-formed strings survive the file\<close>

lemma utf8_wellFormed: "wellFormedUtf16 s \<Longrightarrow> utf8 s = s"
  by (induction s rule: wellFormedUtf16.induct) (auto split: if_splits)

lemma not_both_surrogates: "isHighSurrogate c \<Longrightarrow> \<not> isLowSurrogate c"
  by (simp add: isHighSurrogate_def isLowSurrogate_def word_le_nat_alt)

lemma wellFormedUtf16_Cons:
  assumes "\<not> isHighSurrogate c" and "\<not> isLowSurrogate c" and "wellFormedUtf16 s"
  shows "wellFormedUtf16 (c # s)"
  using assms by (cases s) simp_all

lemma wellFormedUtf16_append:
  "wellFormedUtf16 a \<Longrightarrow> wellFormedUtf16 b \<Longrightarrow> wellFormedUtf16 (a @ b)"
proof (induction a rule: wellFormedUtf16.induct)
  case 1
  then show ?case by simp
next
  case (2 c)
  then show ?case by (simp add: wellFormedUtf16_Cons)
next
  case (3 c d ds)
  then show ?case by (auto split: if_splits)
qed

lemma special_not_surrogate:
  "\<not> isHighSurrogate COLON" "\<not> isLowSurrogate COLON"
  "\<not> isHighSurrogate NEWLINE" "\<not> isLowSurrogate NEWLINE"
  "\<not> isHighSurrogate BACKSLASH" "\<not> isLowSurrogate BACKSLASH"
  "\<not> isHighSurrogate LETTER_N" "\<not> isLowSurrogate LETTER_N"
  by (simp_all add: isHighSurrogate_def isLowSurrogate_def COLON_def NEWLINE_def BACKSLASH_def LETTER_N_def)

lemma escapeString_surrogate:
  "isHighSurrogate c \<or> isLowSurrogate c \<Longrightarrow> escapeString (c # cs) = c # escapeString cs"
  using special_not_surrogate by auto

lemma wellFormedUtf16_escape_char:
  assumes "\<not> isHighSurrogate c" and "\<not> isLowSurrogate c" and "wellFormedUtf16 (escapeString cs)"
  shows "wellFormedUtf16 (escapeString (c # cs))"
  using assms special_not_surrogate by (auto intro!: wellFormedUtf16_Cons)

lemma wellFormedUtf16_escapeString:
  "wellFormedUtf16 s \<Longrightarrow> wellFormedUtf16 (escapeString s)"
proof (induction s rule: wellFormedUtf16.induct)
  case 1
  show ?case by simp
next
  case (2 c)
  then have "wellFormedUtf16 (escapeString (c # []))"
    by (intro wellFormedUtf16_escape_char) simp_all
  then show ?case .
next
  case (3 c d ds)
  show ?case
  proof (cases "isHighSurrogate c")
    case True
    with "3.prems" have d: "isLowSurrogate d" and ds: "wellFormedUtf16 ds" by simp_all
    from "3.IH"(1) [OF True ds] have "wellFormedUtf16 (escapeString ds)" .
    with True d show ?thesis
      by (simp add: escapeString_surrogate del: escapeString.simps)
  next
    case False
    with "3.prems" have c: "\<not> isLowSurrogate c" and rest: "wellFormedUtf16 (d # ds)" by simp_all
    from "3.IH"(2) [OF False rest] have "wellFormedUtf16 (escapeString (d # ds))" .
    with False c show ?thesis
      by (rule wellFormedUtf16_escape_char)
  qed
qed

lemma wellFormedUtf16_join:
  "\<forall>l \<in> set lines. wellFormedUtf16 l \<Longrightarrow> wellFormedUtf16 (join lines [NEWLINE])"
proof (induction lines "[NEWLINE]" rule: join.induct)
  case 1
  show ?case by simp
next
  case (2 l)
  then show ?case by simp
next
  case (3 l m ls)
  then have "wellFormedUtf16 l" "wellFormedUtf16 (join (m # ls) [NEWLINE])" by simp_all
  moreover have "wellFormedUtf16 [NEWLINE]" by (simp add: special_not_surrogate)
  ultimately have "wellFormedUtf16 (l @ ([NEWLINE] @ join (m # ls) [NEWLINE]))"
    by (intro wellFormedUtf16_append)
  then show ?case by simp
qed

section \<open>Round trip through the file\<close>

lemma loadLine_roundtrip:
  assumes "keyRoundTrips k" and "valueRoundTrips v"
  shows "loadLine (escapeString k @ COLON # escapeString v) = Some \<lparr>e_key = k, e_value = Str v\<rparr>"
proof -
  let ?ek = "escapeString k" and ?ev = "escapeString v"
  let ?line = "?ek @ COLON # ?ev"
  from assms(1) have k: "k \<noteq> []" "COLON \<notin> set k" "\<not> isWhiteSpace (hd k) \<or> hd k = NEWLINE"
    by (simp_all add: keyRoundTrips_def)
  from assms(2) have v: "v = [] \<or> \<not> isWhiteSpace (last v) \<or> last v = NEWLINE"
    by (simp add: valueRoundTrips_def)
  from k(1) have ek: "?ek \<noteq> []" by (simp add: escapeString_Nil_iff)
  have first: "\<not> isWhiteSpace (hd ?line)"
    using ek hd_escapeString [OF k(1,3)] by simp
  have final: "\<not> isWhiteSpace (last ?line)"
  proof (cases "v = []")
    case True
    then show ?thesis by simp
  next
    case False
    with v have "\<not> isWhiteSpace (last ?ev)" by (intro last_escapeString) auto
    with False show ?thesis by (simp add: escapeString_Nil_iff)
  qed
  have t: "trim ?line = ?line"
    using first final by (intro trim_id) simp_all
  have ci: "indexOfString ?line [COLON] = int (length ?ek)"
    using k(2) by (intro indexOfString_first colon_not_in_escapeString)
  have "unescapeString (take (length ?ek) ?line) = k"
    using unescape_escape [of k "[]"] by simp
  moreover have "unescapeString (drop (length ?ek + 1) ?line) = v"
    using unescape_escape [of v "[]"] by simp
  ultimately show ?thesis
    using ek by (simp add: loadLine_def t ci Let_def del: escapeString.simps)
qed

lemma saveLines_roundtrip:
  assumes "\<forall>e \<in> set es. entryRoundTrips e"
  shows "\<exists>lines. saveLines es = Inr lines \<and> List.map_filter loadLine lines = es
           \<and> length lines = length es
           \<and> (\<forall>l \<in> set lines. NEWLINE \<notin> set l \<and> wellFormedUtf16 l)"
  using assms
proof (induction es)
  case Nil
  show ?case by simp
next
  case (Cons e es)
  from Cons.prems obtain v where v: "e_value e = Str v" "keyRoundTrips (e_key e)" "valueRoundTrips v"
    by (auto simp: entryRoundTrips_def split: jsvalue.splits)
  from Cons obtain lines where lines: "saveLines es = Inr lines" "List.map_filter loadLine lines = es"
    "length lines = length es" "\<forall>l \<in> set lines. NEWLINE \<notin> set l \<and> wellFormedUtf16 l"
    by auto
  let ?l = "escapeString (e_key e) @ COLON # escapeString v"
  have s: "saveLines (e # es) = Inr (?l # lines)"
    using v(1) lines(1) by simp
  have "loadLine ?l = Some \<lparr>e_key = e_key e, e_value = Str v\<rparr>"
    using v(2,3) by (rule loadLine_roundtrip)
  with v(1) have l: "loadLine ?l = Some e" by simp
  have n: "NEWLINE \<notin> set ?l"
    using newline_not_in_escapeString by (simp add: COLON_def NEWLINE_def)
  have "wellFormedUtf16 (escapeString (e_key e) @ ([COLON] @ escapeString v))"
    using v(2,3)
    by (intro wellFormedUtf16_append wellFormedUtf16_escapeString)
      (simp_all add: keyRoundTrips_def valueRoundTrips_def special_not_surrogate)
  then have w: "wellFormedUtf16 ?l" by simp
  from s l n w lines show ?case
    by (simp del: escapeString.simps)
qed

lemma splitString_empty: "splitString [] [NEWLINE] = [[]]"
  by (simp add: splitString_def)

lemma loadLine_empty: "loadLine [] = None"
  by (simp add: loadLine_def trim_def)

text \<open>
  C1, amended. For every table in which each entry has a string value, a key that is not
  empty, contains no colon and does not start with a white-space character other than
  newline, a value that does not end with a white-space character other than newline, and
  key and value well-formed UTF-16: \<open>save\<close> followed by \<open>load\<close> returns exactly the
  entries of the table, in bucket order, each key and value code unit for code unit. This
  includes values with colons, newlines and backslashes and keys with newlines and
  backslashes. (It needs no assumption that the keys are distinct.)
\<close>

theorem save_load_roundtrip:
  assumes "\<forall>e \<in> set (concat bs). entryRoundTrips e"
  shows "load (save d bs) = concat bs"
proof -
  from saveLines_roundtrip [OF assms] obtain lines where lines:
    "saveLines (concat bs) = Inr lines" "List.map_filter loadLine lines = concat bs"
    "length lines = length (concat bs)" "\<forall>l \<in> set lines. NEWLINE \<notin> set l \<and> wellFormedUtf16 l"
    by blast
  have content: "fileContent (save d bs) = Some (join lines [NEWLINE])"
    using lines(1,4) by (simp add: save_content utf8_wellFormed wellFormedUtf16_join)
  show ?thesis
  proof (cases "lines = []")
    case True
    with lines(2) content show ?thesis
      by (simp add: load_def splitString_empty loadLine_empty)
  next
    case False
    with lines(4) have "splitString (join lines [NEWLINE]) [NEWLINE] = lines"
      by (intro splitString_join) simp_all
    with content lines(2) show ?thesis
      by (simp add: load_def)
  qed
qed

lemmas persistence_eval =
  js_def COLON_def NEWLINE_def BACKSLASH_def LETTER_N_def emptyDisk_def save_def
  writeFileSync_def load_def splitString_def loadLine_def trim_def isWhiteSpace_def
  indexOfString_def indexLoop.simps matchLoop.simps charAt_def
  isHighSurrogate_def isLowSurrogate_def Let_def

text \<open>
  C1, as the claim states it, fails. A key with a colon comes back cut at the colon, with
  the rest in the value; an entry with the empty key does not come back; a key loses its
  leading blank and a value its trailing blank; a lone surrogate comes back as U+FFFD.
\<close>

theorem save_load_roundtrip_counterexample:
  "load (save emptyDisk [[\<lparr>e_key = js ''a:b'', e_value = Str (js ''v'')\<rparr>]])
     = [\<lparr>e_key = js ''a'', e_value = Str (js '':b:v'')\<rparr>]
   \<and> set (load (save emptyDisk [[\<lparr>e_key = js ''a:b'', e_value = Str (js ''v'')\<rparr>]]))
       \<noteq> set (concat [[\<lparr>e_key = js ''a:b'', e_value = Str (js ''v'')\<rparr>]])
   \<and> load (save emptyDisk [[\<lparr>e_key = [], e_value = Str (js ''v'')\<rparr>]]) = []
   \<and> load (save emptyDisk [[\<lparr>e_key = js '' k'', e_value = Str (js ''v'')\<rparr>]])
       = [\<lparr>e_key = js ''k'', e_value = Str (js ''v'')\<rparr>]
   \<and> load (save emptyDisk [[\<lparr>e_key = js ''k'', e_value = Str (js ''v '')\<rparr>]])
       = [\<lparr>e_key = js ''k'', e_value = Str (js ''v'')\<rparr>]
   \<and> load (save emptyDisk [[\<lparr>e_key = [0xD800], e_value = Str (js ''v'')\<rparr>]])
       = [\<lparr>e_key = [0xFFFD], e_value = Str (js ''v'')\<rparr>]"
  by (simp add: persistence_eval)

theorem save_load_roundtrip_witness:
  "entryRoundTrips \<lparr>e_key = [0x6B, BACKSLASH, NEWLINE], e_value = Str [COLON, NEWLINE, BACKSLASH, 0x76]\<rparr>
   \<and> entryRoundTrips \<lparr>e_key = js ''k2'', e_value = Str []\<rparr>
   \<and> load (save emptyDisk [[\<lparr>e_key = [0x6B, BACKSLASH, NEWLINE], e_value = Str [COLON, NEWLINE, BACKSLASH, 0x76]\<rparr>],
                         [],
                         [\<lparr>e_key = js ''k2'', e_value = Str []\<rparr>]])
       = [\<lparr>e_key = [0x6B, BACKSLASH, NEWLINE], e_value = Str [COLON, NEWLINE, BACKSLASH, 0x76]\<rparr>,
          \<lparr>e_key = js ''k2'', e_value = Str []\<rparr>]"
proof -
  have h1: "entryRoundTrips \<lparr>e_key = [0x6B, BACKSLASH, NEWLINE], e_value = Str [COLON, NEWLINE, BACKSLASH, 0x76]\<rparr>"
    and h2: "entryRoundTrips \<lparr>e_key = js ''k2'', e_value = Str []\<rparr>"
    by (simp_all add: entryRoundTrips_def keyRoundTrips_def valueRoundTrips_def js_def COLON_def
        NEWLINE_def BACKSLASH_def isWhiteSpace_def isHighSurrogate_def isLowSurrogate_def)
  have h: "\<forall>e \<in> set (concat [[\<lparr>e_key = [0x6B, BACKSLASH, NEWLINE], e_value = Str [COLON, NEWLINE, BACKSLASH, 0x76]\<rparr>],
                         [],
                         [\<lparr>e_key = js ''k2'', e_value = Str []\<rparr>]]). entryRoundTrips e"
    using h1 h2 by simp
  from save_load_roundtrip [OF h, of emptyDisk] h1 h2 show ?thesis
    by simp
qed

section \<open>No value of the table is undefined\<close>

text \<open>
  A newly constructed store has no \<open>undefined\<close> value in its table, whatever the file
  contains, and \<open>set\<close>, \<open>update\<close>, \<open>delete\<close> and \<open>resize\<close> keep it so: \<open>resize\<close> reads only
  names that \<open>getAll\<close> has written, or \<open>__proto__\<close>. So \<open>save\<close> writes the file in every
  state the store can reach.
\<close>

lemma getAllLoop_value:
  assumes "k \<in> e_key ` set es" and "k \<noteq> js ''__proto__''"
  shows "\<exists>e \<in> set es. getAllLoop es m k = Some (e_value e)"
  using assms
proof (induction es arbitrary: m)
  case Nil
  then show ?case by simp
next
  case (Cons x xs)
  show ?case
  proof (cases "k \<in> e_key ` set xs")
    case True
    from Cons.IH [OF True Cons.prems(2)] show ?thesis by auto
  next
    case False
    with Cons.prems have kx: "e_key x = k" by auto
    from False have "getAllLoop xs (objSet m (e_key x) (e_value x)) k = objSet m (e_key x) (e_value x) k"
      by (rule getAllLoop_absent)
    with kx Cons.prems(2) show ?thesis by (simp add: objSet_def)
  qed
qed

lemma objGet_getAll_defined:
  assumes "valuesDefined s" and "k \<in> set (getAllKeys (bucketManager s))"
  shows "objGet (getAll (bucketManager s)) k \<noteq> Undefined"
proof (cases "k = js ''__proto__''")
  case True
  then show ?thesis by (simp add: objGet_def)
next
  case False
  from assms(2) have "k \<in> e_key ` set (concat (buckets (bucketManager s)))"
    by (simp add: getAllKeys_def)
  from getAllLoop_value [OF this False, of Map.empty]
  obtain e where "e \<in> set (concat (buckets (bucketManager s)))"
    "getAllLoop (concat (buckets (bucketManager s))) Map.empty k = Some (e_value e)"
    by blast
  with assms(1) False show ?thesis
    by (auto simp: objGet_def getAll_def valuesDefined_def list_all_iff)
qed

lemma reinsert_defined:
  assumes "tableInvariant s" and "valuesDefined s" and "\<forall>k \<in> set ks. objGet allData k \<noteq> Undefined"
    and "reinsert s allData ks = Inr s'"
  shows "valuesDefined s'"
  using assms
proof (induction ks arbitrary: s)
  case Nil
  then show ?case by simp
next
  case (Cons k ks)
  from Cons.prems(1) have wf: "wellFormed s" by (simp add: tableInvariant_def)
  then obtain i where i: "hash (hashFunction s) k = Some i" "i < length (buckets (bucketManager s))"
    by (rule wellFormed_hash)
  let ?s1 = "putIn s i k (objGet allData k)"
  have "tableInvariant ?s1" using Cons.prems(1) i by (rule putIn_invariant)
  moreover have "valuesDefined ?s1"
    using Cons.prems(2,3) i(2) by (intro valuesDefined_putIn) simp_all
  moreover have "reinsert ?s1 allData ks = Inr s'"
    using Cons.prems(4) i by (simp add: setWithoutSave_eq)
  ultimately show ?case
    using Cons.IH Cons.prems(3) by simp
qed

lemma valuesDefined_fresh:
  "valuesDefined (s\<lparr>bucketCount := n, hashFunction := \<lparr>hf_bucketCount = n\<rparr>,
                     bucketManager := newBucketManager n\<rparr>)"
  by (simp add: valuesDefined_def newBucketManager_def list_all_iff)

lemma resize_defined:
  assumes "0 < bucketCount s" and "valuesDefined s" and "resize s = Inr s'"
  shows "valuesDefined s'"
proof -
  let ?n = "bucketCount s * 2"
  let ?s0 = "s\<lparr>bucketCount := ?n, hashFunction := \<lparr>hf_bucketCount = ?n\<rparr>,
                bucketManager := newBucketManager ?n\<rparr>"
  from assms(1) have "tableInvariant ?s0" by (intro fresh_invariant) simp
  moreover have "valuesDefined ?s0" by (rule valuesDefined_fresh)
  moreover have "\<forall>k \<in> set (getAllKeys (bucketManager s)). objGet (getAll (bucketManager s)) k \<noteq> Undefined"
    using objGet_getAll_defined [OF assms(2)] by blast
  moreover have "reinsert ?s0 (getAll (bucketManager s)) (getAllKeys (bucketManager s)) = Inr s'"
    using assms(3) by (simp add: resize_def Let_def)
  ultimately show ?thesis by (rule reinsert_defined)
qed

lemma valuesDefined_saveToDisk [simp]: "valuesDefined (saveToDisk s) = valuesDefined s"
  by (simp add: valuesDefined_def)

lemma set_defined:
  assumes "tableInvariant s" and "valuesDefined s" and "set' s k v = Inr s'"
  shows "valuesDefined s'"
proof -
  from assms(1) have wf: "wellFormed s" by (simp add: tableInvariant_def)
  then obtain i where i: "hash (hashFunction s) k = Some i" "i < length (buckets (bucketManager s))"
    by (rule wellFormed_hash)
  let ?s1 = "putIn s i k (Str v)"
  have d1: "valuesDefined ?s1"
    using assms(2) i(2) by (intro valuesDefined_putIn) simp_all
  show ?thesis
  proof (cases "k \<in> e_key ` set (buckets (bucketManager s) ! i)")
    case True
    with assms(3) i d1 show ?thesis by (auto simp: set_existing)
  next
    case False
    show ?thesis
    proof (cases "shouldResize ?s1")
      case no: False
      with False assms(3) i d1 show ?thesis by (auto simp: set_new)
    next
      case True
      with False assms(3) i obtain s2 where s2: "resize ?s1 = Inr s2" "s' = saveToDisk s2"
        by (auto simp: set_new split: sum.splits)
      from wf have "0 < bucketCount ?s1" by (simp add: wellFormed_def)
      from resize_defined [OF this d1 s2(1)] s2(2) show ?thesis by simp
    qed
  qed
qed

lemma update_defined:
  assumes "tableInvariant s" and "valuesDefined s" and "update s k v = Inr (r, s')"
  shows "valuesDefined s'"
proof -
  from assms(1) have wf: "wellFormed s" by (simp add: tableInvariant_def)
  then obtain i where i: "hash (hashFunction s) k = Some i" "i < length (buckets (bucketManager s))"
    by (rule wellFormed_hash)
  have "valuesDefined (putIn s i k (Str v))"
    using assms(2) i(2) by (intro valuesDefined_putIn) simp_all
  with assms(2,3) i show ?thesis
    by (auto simp: update_eq split: if_splits)
qed

lemma delete_defined:
  assumes "tableInvariant s" and "valuesDefined s" and "delete s k = Inr (r, s')"
  shows "valuesDefined s'"
proof -
  from assms(1) have wf: "wellFormed s" by (simp add: tableInvariant_def)
  then obtain i where i: "hash (hashFunction s) k = Some i" "i < length (buckets (bucketManager s))"
    by (rule wellFormed_hash)
  show ?thesis
  proof (cases "deleteLoop (buckets (bucketManager s) ! i) k")
    case None
    with assms(2,3) i show ?thesis by (simp add: delete_eq)
  next
    case (Some bucket')
    have "e_value e \<noteq> Undefined" if "e \<in> set (concat (buckets (bucketManager (takeOut s i bucket'))))" for e
    proof -
      from that have "e \<in> set bucket' \<or> e \<in> set (concat (buckets (bucketManager s)))"
        unfolding takeOut_def using concat_update_members by simp
      moreover have "set bucket' \<subseteq> set (buckets (bucketManager s) ! i)"
        using deleteLoop_Some [OF Some] by simp
      ultimately have "e \<in> set (concat (buckets (bucketManager s)))"
        using nth_mem [OF i(2)] by auto
      with assms(2) show ?thesis by (auto simp: valuesDefined_def list_all_iff)
    qed
    then have "valuesDefined (takeOut s i bucket')"
      by (simp add: valuesDefined_def list_all_iff)
    with Some assms(3) i show ?thesis by (auto simp: delete_eq)
  qed
qed

lemma loadLine_Str: "loadLine l = Some e \<Longrightarrow> e_value e \<noteq> Undefined"
  by (auto simp: loadLine_def Let_def split: if_splits)

lemma load_defined: "e \<in> set (load d) \<Longrightarrow> e_value e \<noteq> Undefined"
  by (auto simp: load_def split: option.splits dest!: map_filter_member dest: loadLine_Str)

lemma loadLoop_defined:
  assumes "tableInvariant s" and "valuesDefined s" and "\<forall>e \<in> set es. e_value e \<noteq> Undefined"
    and "loadLoop s es = Inr s'"
  shows "valuesDefined s'"
  using assms
proof (induction es arbitrary: s)
  case Nil
  then show ?case by simp
next
  case (Cons e es)
  from Cons.prems(1) have wf: "wellFormed s" by (simp add: tableInvariant_def)
  then obtain i where i: "hash (hashFunction s) (e_key e) = Some i" "i < length (buckets (bucketManager s))"
    by (rule wellFormed_hash)
  let ?s1 = "putIn s i (e_key e) (e_value e)"
  have "tableInvariant ?s1" using Cons.prems(1) i by (rule putIn_invariant)
  moreover have "valuesDefined ?s1"
    using Cons.prems(2,3) i(2) by (intro valuesDefined_putIn) simp_all
  moreover have "loadLoop ?s1 es = Inr s'"
    using Cons.prems(4) i by (simp add: setWithoutSave_eq)
  ultimately show ?case
    using Cons.IH Cons.prems(3) by simp
qed

lemma newHashMapStore_defined:
  assumes "newHashMapStore d = Inr s"
  shows "valuesDefined s"
proof -
  let ?s0 = "\<lparr>hashFunction = \<lparr>hf_bucketCount = 16\<rparr>, bucketManager = newBucketManager 16,
              disk = d, bucketCount = 16\<rparr>"
  have "tableInvariant ?s0"
    by (simp add: tableInvariant_def wellFormed_def newBucketManager_def placedFrom_replicate)
  moreover have "valuesDefined ?s0"
    by (simp add: valuesDefined_def newBucketManager_def list_all_iff)
  moreover have "\<forall>e \<in> set (load d). e_value e \<noteq> Undefined"
    using load_defined by blast
  moreover have "loadLoop ?s0 (load d) = Inr s"
    using assms by (simp add: newHashMapStore_def loadFromDisk_def)
  ultimately show ?thesis by (rule loadLoop_defined)
qed

section \<open>Updating\<close>

lemma saveLines_entryLine:
  "list_all (\<lambda>e. e_value e \<noteq> Undefined) es \<Longrightarrow> saveLines es = Inr (map entryLine es)"
proof (induction es)
  case Nil
  show ?case by simp
next
  case (Cons e es)
  then have "saveLines es = Inr (map entryLine es)" and "e_value e \<noteq> Undefined"
    by simp_all
  then show ?case
    by (cases "e_value e") (simp_all add: entryLine_def)
qed

lemma save_file:
  assumes "list_all (\<lambda>e. e_value e \<noteq> Undefined) (concat bs)"
  shows "save d bs = \<lparr>fileContent = Some (utf8 (join (map entryLine (concat bs)) [NEWLINE])),
                       writes = writes d + 1\<rparr>"
  using saveLines_entryLine [OF assms] by (simp add: save_def writeFileSync_def)

lemma load_save:
  assumes "\<forall>e \<in> set (concat bs). entryRoundTrips e"
  shows "load (save d bs) = concat bs"
proof -
  from saveLines_roundtrip [OF assms] obtain lines where lines:
    "saveLines (concat bs) = Inr lines" "List.map_filter loadLine lines = concat bs"
    "\<forall>l \<in> set lines. NEWLINE \<notin> set l \<and> wellFormedUtf16 l"
    by blast
  have content: "fileContent (save d bs) = Some (join lines [NEWLINE])"
    using lines(1,3) by (simp add: save_content utf8_wellFormed wellFormedUtf16_join)
  show ?thesis
  proof (cases "lines = []")
    case True
    with lines(2) content show ?thesis
      by (simp add: load_def splitString_empty loadLine_empty)
  next
    case False
    with lines(3) have "splitString (join lines [NEWLINE]) [NEWLINE] = lines"
      by (intro splitString_join) simp_all
    with content lines(2) show ?thesis
      by (simp add: load_def)
  qed
qed

text \<open>
  C7. In a state that satisfies the table invariant, \<open>update(key, value)\<close> returns true
  exactly when the key is in the table. When it returns true, \<open>key\<close> now holds \<open>value\<close>,
  every other key holds what it held, the keys and \<open>bucketCount\<close> are the same, and the
  table is persisted: \<open>save\<close> has been called with the new table; when no value of the
  table is \<open>undefined\<close> (as in every state the store can reach, by the lemmas of the
  section before) the file has been written once more and now holds one line per
  entry of the new table, joined by newlines, among them the line of \<open>key\<close> with the new
  value; and when every entry of the new table is one that survives the file, \<open>load\<close>
  reads back from the file exactly the new table. When \<open>update\<close> returns false the state
  is the same state: no entry added, no value changed, nothing written.
\<close>

theorem update_only_existing:
  assumes "tableInvariant s"
  shows "\<exists>updated s'. update s key value = Inr (updated, s')
           \<and> (updated \<longleftrightarrow> key \<in> set (getAllKeys (bucketManager s)))
           \<and> (updated \<longrightarrow>
                 get s' key = Inr (Some (Str value))
                 \<and> (\<forall>k'. k' \<noteq> key \<longrightarrow> get s' k' = get s k')
                 \<and> getAllKeys (bucketManager s') = getAllKeys (bucketManager s)
                 \<and> bucketCount s' = bucketCount s
                 \<and> disk s' = save (disk s) (buckets (bucketManager s'))
                 \<and> \<lparr>e_key = key, e_value = Str value\<rparr> \<in> set (concat (buckets (bucketManager s')))
                 \<and> (valuesDefined s \<longrightarrow>
                       writes (disk s') = writes (disk s) + 1
                       \<and> fileContent (disk s')
                           = Some (utf8 (join (map entryLine (concat (buckets (bucketManager s')))) [NEWLINE]))
                       \<and> escapeString key @ [COLON] @ escapeString value
                           \<in> set (map entryLine (concat (buckets (bucketManager s')))))
                 \<and> ((\<forall>e \<in> set (concat (buckets (bucketManager s'))). entryRoundTrips e) \<longrightarrow>
                       load (disk s') = concat (buckets (bucketManager s'))))
           \<and> (\<not> updated \<longrightarrow> s' = s)"
proof -
  from assms have wf: "wellFormed s" by (simp add: tableInvariant_def)
  then obtain i where i: "hash (hashFunction s) key = Some i" "i < length (buckets (bucketManager s))"
    by (rule wellFormed_hash)
  have present: "key \<in> set (getAllKeys (bucketManager s)) \<longleftrightarrow> key \<in> e_key ` set (buckets (bucketManager s) ! i)"
    using has_present [OF assms, of key] i by (simp add: has_def hasInBucket_def hasLoop_iff)
  show ?thesis
  proof (cases "key \<in> e_key ` set (buckets (bucketManager s) ! i)")
    case False
    with i present show ?thesis
      by (intro exI [of _ False] exI [of _ s]) (simp add: update_eq)
  next
    case True
    let ?s' = "saveToDisk (putIn s i key (Str value))"
    let ?bs' = "buckets (bucketManager ?s')"
    have u: "update s key value = Inr (True, ?s')"
      using i True by (simp add: update_eq)
    have g: "\<forall>k'. get ?s' k' = (if k' = key then Inr (Some (Str value)) else get s k')"
      using get_putIn [OF assms i] by simp
    have "map e_key (concat ?bs') = map e_key (concat (buckets (bucketManager s)))"
      using putIn_existing_frame(1) [OF i(2) True, of "Str value"] by (simp add: map_concat)
    then have k: "getAllKeys (bucketManager ?s') = getAllKeys (bucketManager s)"
      by (simp add: getAllKeys_def)
    have "getLoop (?bs' ! i) key = Some (Str value)"
      using i by (simp add: putIn_def getLoop_setLoop)
    then have "\<lparr>e_key = key, e_value = Str value\<rparr> \<in> set (?bs' ! i)"
      by (rule getLoop_Some_member)
    moreover have "i < length ?bs'" using i(2) by simp
    ultimately have m: "\<lparr>e_key = key, e_value = Str value\<rparr> \<in> set (concat ?bs')"
      using nth_mem [of i ?bs'] by auto
    have defined: "list_all (\<lambda>e. e_value e \<noteq> Undefined) (concat ?bs')" if "valuesDefined s"
    proof -
      from that have "valuesDefined (putIn s i key (Str value))"
        using i(2) by (intro valuesDefined_putIn) simp_all
      then show ?thesis by (simp add: valuesDefined_def)
    qed
    have line: "escapeString key @ [COLON] @ escapeString value \<in> set (map entryLine (concat ?bs'))"
    proof -
      have "entryLine \<lparr>e_key = key, e_value = Str value\<rparr> \<in> set (map entryLine (concat ?bs'))"
        using m unfolding set_map by (rule imageI)
      then show ?thesis by (simp add: entryLine_def)
    qed
    show ?thesis
    proof (intro exI [of _ True] exI [of _ ?s'] conjI impI)
      show "update s key value = Inr (True, ?s')" by (rule u)
      show "True \<longleftrightarrow> key \<in> set (getAllKeys (bucketManager s))"
        using True present by simp
      show "get ?s' key = Inr (Some (Str value))" using g by simp
      show "\<forall>k'. k' \<noteq> key \<longrightarrow> get ?s' k' = get s k'" using g by simp
      show "getAllKeys (bucketManager ?s') = getAllKeys (bucketManager s)" by (rule k)
      show "bucketCount ?s' = bucketCount s" by simp
      show "disk ?s' = save (disk s) ?bs'" by simp
      show "\<lparr>e_key = key, e_value = Str value\<rparr> \<in> set (concat ?bs')" by (rule m)
      show "writes (disk ?s') = writes (disk s) + 1" if "valuesDefined s"
        using save_file [OF defined [OF that], of "disk s"] by simp
      show "fileContent (disk ?s') = Some (utf8 (join (map entryLine (concat ?bs')) [NEWLINE]))"
        if "valuesDefined s"
        using save_file [OF defined [OF that], of "disk s"] by simp
      show "escapeString key @ [COLON] @ escapeString value \<in> set (map entryLine (concat ?bs'))"
        by (rule line)
      show "load (disk ?s') = concat ?bs'" if "\<forall>e \<in> set (concat ?bs'). entryRoundTrips e"
        using load_save [OF that, of "disk s"] by simp
      show "?s' = s" if "\<not> True"
        using that by simp
    qed
  qed
qed

theorem update_only_existing_witness:
  "tableInvariant exampleStore \<and> valuesDefined exampleStore
   \<and> (\<exists>s'. update exampleStore (js ''name'') (js ''Jane'') = Inr (True, s')
          \<and> get s' (js ''name'') = Inr (Some (Str (js ''Jane'')))
          \<and> concat (buckets (bucketManager s')) = [\<lparr>e_key = js ''name'', e_value = Str (js ''Jane'')\<rparr>]
          \<and> entryRoundTrips \<lparr>e_key = js ''name'', e_value = Str (js ''Jane'')\<rparr>
          \<and> writes (disk s') = 2
          \<and> fileContent (disk s') = Some (js ''name:Jane'')
          \<and> load (disk s') = [\<lparr>e_key = js ''name'', e_value = Str (js ''Jane'')\<rparr>])
   \<and> update exampleStore (js ''missing'') (js ''x'') = Inr (False, exampleStore)"
proof -
  let ?e = "\<lparr>e_key = js ''name'', e_value = Str (js ''Jane'')\<rparr>"
  let ?s' = "saveToDisk (putIn exampleStore 11 (js ''name'') (Str (js ''Jane'')))"
  have defined: "valuesDefined exampleStore"
    by (simp add: valuesDefined_def exampleStore_def)
  have name: "js ''name'' \<in> set (getAllKeys (bucketManager exampleStore))"
    and missing: "js ''missing'' \<notin> set (getAllKeys (bucketManager exampleStore))"
    by (simp_all add: exampleStore_def getAllKeys_def js_def)
  have u: "update exampleStore (js ''name'') (js ''Jane'') = Inr (True, ?s')"
    using update_eq [of exampleStore "js ''name''" 11 "js ''Jane''"]
    by (simp add: exampleStore_def hash_name)
  have bs: "concat (buckets (bucketManager ?s')) = [?e]"
    by (simp add: putIn_def exampleStore_def)
  have rt: "entryRoundTrips ?e"
    by (simp add: entryRoundTrips_def keyRoundTrips_def valueRoundTrips_def js_def COLON_def
        NEWLINE_def isWhiteSpace_def isHighSurrogate_def isLowSurrogate_def)
  have content: "utf8 (join (map entryLine [?e]) [NEWLINE]) = js ''name:Jane''"
    by (simp add: entryLine_def js_def COLON_def NEWLINE_def BACKSLASH_def
        isHighSurrogate_def isLowSurrogate_def)
  have w1: "writes (disk exampleStore) = 1"
    by (simp add: exampleStore_def)
  from update_only_existing [OF exampleStore_invariant, of "js ''name''" "js ''Jane''"] u name
  have "get ?s' (js ''name'') = Inr (Some (Str (js ''Jane'')))"
    and "valuesDefined exampleStore \<longrightarrow>
           writes (disk ?s') = writes (disk exampleStore) + 1
           \<and> fileContent (disk ?s') = Some (utf8 (join (map entryLine (concat (buckets (bucketManager ?s')))) [NEWLINE]))"
    and "(\<forall>e \<in> set (concat (buckets (bucketManager ?s'))). entryRoundTrips e) \<longrightarrow>
           load (disk ?s') = concat (buckets (bucketManager ?s'))"
    by auto
  with defined bs rt content w1
  have "get ?s' (js ''name'') = Inr (Some (Str (js ''Jane'')))"
    and "writes (disk ?s') = 2"
    and "fileContent (disk ?s') = Some (js ''name:Jane'')"
    and "load (disk ?s') = [?e]"
    by simp_all
  moreover from update_only_existing [OF exampleStore_invariant, of "js ''missing''" "js ''x''"] missing
  have "update exampleStore (js ''missing'') (js ''x'') = Inr (False, exampleStore)"
    by auto
  ultimately show ?thesis
    using u bs rt defined exampleStore_invariant by blast
qed

section \<open>Setting a new key, and resizing\<close>

lemmas store_eval =
  replicate_16 set'_def has_def hasInBucket_def setWithoutSave_def
  shouldResize_def getAllKeys_def saveToDisk_def getAllBuckets_def save_def writeFileSync_def
  emptyDisk_def resize_def newBucketManager_def getAll_def objSet_def objGet_def get_def
  getFromBucket_def hash_def toInt32_def js_def COLON_def NEWLINE_def BACKSLASH_def LETTER_N_def
  isHighSurrogate_def isLowSurrogate_def Let_def

lemma length_concat_update:
  "i < length bs \<Longrightarrow> length (concat (bs[i := b'])) + length (bs ! i) = length (concat bs) + length b'"
proof (induction bs arbitrary: i)
  case Nil
  then show ?case by simp
next
  case (Cons b bs)
  show ?case
  proof (cases i)
    case 0
    then show ?thesis by simp
  next
    case (Suc j)
    with Cons.prems have "j < length bs" by simp
    from Cons.IH [OF this] Suc show ?thesis by simp
  qed
qed

lemma length_keys_putIn_new:
  assumes "i < length (buckets (bucketManager s))"
    and "k \<notin> e_key ` set (buckets (bucketManager s) ! i)"
  shows "length (getAllKeys (bucketManager (putIn s i k v))) = length (getAllKeys (bucketManager s)) + 1"
  using length_concat_update [OF assms(1), of "setLoop (buckets (bucketManager s) ! i) k v"] assms(2)
  by (simp add: getAllKeys_def putIn_def length_setLoop)

text \<open>
  What \<open>set\<close> of a new key does in general, from a state that satisfies the invariant. The
  bucket count doubles, once, exactly when the new number of entries is above three
  quarters of the bucket count; \<open>getBucketForKey\<close> then hashes under the new count; every
  key other than \<open>__proto__\<close> keeps its value. Only the key \<open>__proto__\<close> is affected by the
  resize.
\<close>

lemma set_new_key:
  assumes inv: "tableInvariant s" and new: "key \<notin> set (getAllKeys (bucketManager s))"
  shows "\<exists>s'. set' s key value = Inr s' \<and> tableInvariant s'
           \<and> bucketCount s' =
               (if 4 * (length (getAllKeys (bucketManager s)) + 1) > 3 * bucketCount s
                then 2 * bucketCount s else bucketCount s)
           \<and> (\<forall>k. getBucketForKey s' k = hash \<lparr>hf_bucketCount = bucketCount s'\<rparr> k)
           \<and> (\<forall>k. k \<noteq> js ''__proto__'' \<or> bucketCount s' = bucketCount s \<longrightarrow>
                   get s' k = (if k = key then Inr (Some (Str value)) else get s k))
           \<and> (bucketCount s' \<noteq> bucketCount s
                \<and> js ''__proto__'' \<in> insert key (set (getAllKeys (bucketManager s))) \<longrightarrow>
                   get s' (js ''__proto__'') = Inr (Some ObjectPrototype))"
proof -
  from inv have wf: "wellFormed s" by (simp add: tableInvariant_def)
  then obtain i where i: "hash (hashFunction s) key = Some i" "i < length (buckets (bucketManager s))"
    by (rule wellFormed_hash)
  from has_present [OF inv, of key] new i have absent: "key \<notin> e_key ` set (buckets (bucketManager s) ! i)"
    by (simp add: has_def hasInBucket_def hasLoop_iff)
  let ?s1 = "putIn s i key (Str value)"
  have inv1: "tableInvariant ?s1"
    using inv i by (rule putIn_invariant)
  have get1: "\<And>k. get ?s1 k = (if k = key then Inr (Some (Str value)) else get s k)"
    using get_putIn [OF inv i] by simp
  have keys1: "set (getAllKeys (bucketManager ?s1)) = insert key (set (getAllKeys (bucketManager s)))"
    using i(2) by (rule keys_putIn)
  have sr: "shouldResize ?s1 \<longleftrightarrow> 4 * (length (getAllKeys (bucketManager s)) + 1) > 3 * bucketCount s"
    using length_keys_putIn_new [OF i(2) absent, of "Str value"] by (simp add: shouldResize_def)
  have hf: "hashFunction s = \<lparr>hf_bucketCount = bucketCount s\<rparr>"
    using wf by (simp add: wellFormed_def)
  show ?thesis
  proof (cases "shouldResize ?s1")
    case False
    then have "set' s key value = Inr (saveToDisk ?s1)"
      using i absent by (simp add: set_new)
    with False sr inv1 get1 hf show ?thesis
      by (simp add: getBucketForKey_def)
  next
    case True
    from wf have "0 < bucketCount ?s1" by (simp add: wellFormed_def)
    from resize_ok [OF this] obtain s2 where s2: "resize ?s1 = Inr s2" "tableInvariant s2"
      "bucketCount s2 = 2 * bucketCount s" "hashFunction s2 = \<lparr>hf_bucketCount = 2 * bucketCount s\<rparr>"
      "\<forall>k. get s2 k = (if k \<in> set (getAllKeys (bucketManager ?s1))
                        then Inr (Some (objGet (getAll (bucketManager ?s1)) k)) else Inr None)"
      by auto
    from wf have grow: "bucketCount s2 \<noteq> bucketCount s"
      using s2(3) by (simp add: wellFormed_def)
    have step: "set' s key value = Inr (saveToDisk s2)"
      using i absent True s2(1) by (simp add: set_new)
    have others: "get s2 k = (if k = key then Inr (Some (Str value)) else get s k)"
      if k: "k \<noteq> js ''__proto__''" for k
    proof (cases "k \<in> set (getAllKeys (bucketManager ?s1))")
      case True
      then obtain v where v: "get ?s1 k = Inr (Some v)"
        using get_present [OF inv1, of k] by blast
      from objGet_getAll [OF inv1 k v] s2(5) True have "get s2 k = Inr (Some v)"
        by simp
      with v get1 [of k] show ?thesis by simp
    next
      case False
      then have "get ?s1 k = Inr None"
        using get_present [OF inv1, of k] wf
        by (metis get_eq option.exhaust wellFormed_hash inv1 tableInvariant_def)
      with False s2(5) get1 [of k] show ?thesis by simp
    qed
    have proto: "get s2 (js ''__proto__'') = Inr (Some ObjectPrototype)"
      if "js ''__proto__'' \<in> insert key (set (getAllKeys (bucketManager s)))"
      using that s2(5) keys1 by (simp add: objGet_def)
    from step s2(2,3,4) True sr grow others proto show ?thesis
      by (simp add: getBucketForKey_def)
  qed
qed

lemma replicate_32: "replicate 32 x = [x, x, x, x, x, x, x, x, x, x, x, x, x, x, x, x, x, x, x, x, x, x, x, x, x, x, x, x, x, x, x, x]"
  by (simp add: eval_nat_numeral)

text \<open>
  C3, at an input where the code breaks it. On a store constructed without a file, \<open>set\<close>
  of the key \<open>__proto__\<close> and of eleven more keys leaves 16 buckets, and \<open>get("__proto__")\<close>
  returns the value written. The thirteenth new key raises the load factor to 13/16; the
  bucket count doubles once, to 32, and the other keys keep their values, but
  \<open>get("__proto__")\<close> now returns \<open>Object.prototype\<close> instead of the value written:
  \<open>resize\<close> read the values back out of the plain object that \<open>getAll\<close> built.
\<close>

theorem resize_loses_proto_value:
  "\<exists>s0 s12 s13. newHashMapStore emptyDisk = Inr s0
     \<and> setEach s0 [(js ''__proto__'', js ''v''), (js ''a'', js ''1''), (js ''b'', js ''1''),
                     (js ''c'', js ''1''), (js ''d'', js ''1''), (js ''e'', js ''1''),
                     (js ''f'', js ''1''), (js ''g'', js ''1''), (js ''h'', js ''1''),
                     (js ''i'', js ''1''), (js ''j'', js ''1''), (js ''k'', js ''1'')] = Inr s12
     \<and> bucketCount s12 = 16
     \<and> get s12 (js ''__proto__'') = Inr (Some (Str (js ''v'')))
     \<and> set' s12 (js ''l'') (js ''1'') = Inr s13
     \<and> bucketCount s13 = 32
     \<and> get s13 (js ''a'') = Inr (Some (Str (js ''1'')))
     \<and> get s13 (js ''__proto__'') = Inr (Some ObjectPrototype)"
  unfolding newHashMapStore_emptyDisk
  by (simp add: store_eval replicate_32 cong: sum.case_cong_weak option.case_cong_weak)

end
